theory Spec2Isabelle
  imports Main "HOL-Library.AList"
begin

section \<open>Strings as the source uses them\<close>

text \<open>
  A Python \<open>str\<close> is modelled as a \<open>string\<close>, read as a sequence of code points
  below 256 (Latin-1). The character classes below are those of CPython for that range:
  \<open>str.isspace\<close>, which is also the class \<open>\s\<close> of \<open>re\<close> on \<open>str\<close> patterns and the
  set removed by \<open>str.strip()\<close>, and \<open>str.lower\<close>.
\<close>

definition isspace :: "char \<Rightarrow> bool" where
  "isspace c = (c \<in> set [CHR 0x09, CHR 0x0A, CHR 0x0B, CHR 0x0C, CHR 0x0D,
                          CHR 0x1C, CHR 0x1D, CHR 0x1E, CHR 0x1F, CHR 0x20,
                          CHR 0x85, CHR 0xA0])"

definition lower_char :: "char \<Rightarrow> char" where
  "lower_char c =
     (let n = (of_char c :: nat)
      in if (65 \<le> n \<and> n \<le> 90) \<or> (192 \<le> n \<and> n \<le> 222 \<and> n \<noteq> 215)
         then char_of (n + 32) else c)"

definition lower :: "string \<Rightarrow> string" where
  "lower s = map lower_char s"

definition strip :: "string \<Rightarrow> string" where
  "strip s = rev (dropWhile isspace (rev (dropWhile isspace s)))"

text \<open>\<open>strip_prefix p s\<close>: what follows the literal \<open>p\<close> at the start of \<open>s\<close>.\<close>

fun strip_prefix :: "string \<Rightarrow> string \<Rightarrow> string option" where
  "strip_prefix [] s = Some s"
| "strip_prefix (p # ps) [] = None"
| "strip_prefix (p # ps) (c # cs) = (if p = c then strip_prefix ps cs else None)"

text \<open>\<open>sub in s\<close> for a literal \<open>sub\<close>.\<close>

fun contains :: "string \<Rightarrow> string \<Rightarrow> bool" where
  "contains sub [] = (sub = [])"
| "contains sub (c # cs) = (strip_prefix sub (c # cs) \<noteq> None \<or> contains sub cs)"

text \<open>
  \<open>s.split(sep)\<close> for a non-empty literal \<open>sep\<close>: the pieces between the occurrences of
  \<open>sep\<close>, found from the left without overlap. The result is never empty, so the
  source's \<open>[0]\<close> and \<open>[-1]\<close> are \<open>hd\<close> and \<open>last\<close> of a non-empty list.
\<close>

function split :: "string \<Rightarrow> string \<Rightarrow> string list" where
  "split sep [] = [[]]"
| "split sep (c # cs) =
     (case strip_prefix sep (c # cs) of
        Some r \<Rightarrow> (if length r < length (c # cs) then [] # split sep r
                   else (case split sep cs of [] \<Rightarrow> [[c]] | w # ws \<Rightarrow> (c # w) # ws))
      | None \<Rightarrow> (case split sep cs of [] \<Rightarrow> [[c]] | w # ws \<Rightarrow> (c # w) # ws))"
  by pat_completeness auto
termination
  by (relation "measure (\<lambda>(sep, s). length s)") auto

text \<open>
  \<open>s.replace(old, "")\<close> for a non-empty literal \<open>old\<close>: every occurrence found from the
  left, without overlap, is deleted.
\<close>

function replace_del :: "string \<Rightarrow> string \<Rightarrow> string" where
  "replace_del old [] = []"
| "replace_del old (c # cs) =
     (case strip_prefix old (c # cs) of
        Some r \<Rightarrow> (if length r < length (c # cs) then replace_del old r
                   else c # replace_del old cs)
      | None \<Rightarrow> c # replace_del old cs)"
  by pat_completeness auto
termination
  by (relation "measure (\<lambda>(old, s). length s)") auto

section \<open>Regular expressions of the source\<close>

text \<open>
  Each pattern of the source is a matcher anchored at the start of its argument: it
  returns what is left of the string after the match, or \<open>None\<close> when the pattern does
  not match there. \<open>re.sub(pattern, "", s)\<close> scans \<open>s\<close> from the left: where the pattern
  matches, the match is dropped and the scan goes on after it; elsewhere the character
  is kept. (A match of no character with the empty replacement keeps the character as
  well.)
\<close>

function re_sub_del :: "(string \<Rightarrow> string option) \<Rightarrow> string \<Rightarrow> string" where
  "re_sub_del m [] = []"
| "re_sub_del m (c # cs) =
     (case m (c # cs) of
        Some r \<Rightarrow> (if length r < length (c # cs) then re_sub_del m r
                   else c # re_sub_del m cs)
      | None \<Rightarrow> c # re_sub_del m cs)"
  by pat_completeness auto
termination
  by (relation "measure (\<lambda>(m, s). length s)") auto

text \<open>
  \<open>.*?X\<close> for a literal character \<open>X\<close> that ends the pattern: the lazy star takes as few
  characters as it can, each of them any character but a newline, so the match ends at
  the first \<open>X\<close>, and there is none when a newline comes before it.
\<close>

fun lazy_upto :: "char \<Rightarrow> string \<Rightarrow> string option" where
  "lazy_upto x [] = None"
| "lazy_upto x (c # cs) =
     (if c = x then Some cs
      else if c = CHR 0x0A then None
      else lazy_upto x cs)"

text \<open>
  \<open>\s*\(feat\.?.*?\)\<close>. The greedy \<open>\s*\<close> takes the whole run of whitespace (a shorter
  run is followed by whitespace, never by the parenthesis). \<open>\.?\<close> takes a dot when there
  is one, and gives it back to \<open>.*?\<close> when the rest fails.
\<close>

definition match_feat :: "string \<Rightarrow> string option" where
  "match_feat s =
     (case strip_prefix ''(feat'' (dropWhile isspace s) of
        None \<Rightarrow> None
      | Some r \<Rightarrow>
          (case strip_prefix ''.'' r of
             Some r' \<Rightarrow>
               (case lazy_upto CHR '')'' r' of
                  Some t \<Rightarrow> Some t
                | None \<Rightarrow> lazy_upto CHR '')'' r)
           | None \<Rightarrow> lazy_upto CHR '')'' r))"

text \<open>\<open>\s*\[.*?\]\<close>\<close>

definition match_bracket :: "string \<Rightarrow> string option" where
  "match_bracket s =
     (case strip_prefix ''['' (dropWhile isspace s) of
        None \<Rightarrow> None
      | Some r \<Rightarrow> lazy_upto CHR '']'' r)"

text \<open>\<open>\s*\(.*?\)|\[.*?\]\<close>: the first alternative, and the second where the first fails.\<close>

definition match_paren_or_bracket :: "string \<Rightarrow> string option" where
  "match_paren_or_bracket s =
     (case (case strip_prefix ''('' (dropWhile isspace s) of
              None \<Rightarrow> None
            | Some r \<Rightarrow> lazy_upto CHR '')'' r) of
        Some t \<Rightarrow> Some t
      | None \<Rightarrow>
          (case strip_prefix ''['' s of
             None \<Rightarrow> None
           | Some r \<Rightarrow> lazy_upto CHR '']'' r))"

text \<open>\<open>[^a-z0-9 ]\<close> matches one character outside the class below.\<close>

definition keep_char :: "char \<Rightarrow> bool" where
  "keep_char c = (c \<in> set ''abcdefghijklmnopqrstuvwxyz0123456789 '')"

text \<open>\<open>re.sub(r"\s+", " ", s)\<close>: each maximal run of whitespace becomes one space.\<close>

function collapse_ws :: "string \<Rightarrow> string" where
  "collapse_ws [] = []"
| "collapse_ws (c # cs) =
     (if isspace c then CHR '' '' # collapse_ws (dropWhile isspace cs)
      else c # collapse_ws cs)"
  by pat_completeness auto
termination
  by (relation "measure length") (auto simp: length_dropWhile_le less_Suc_eq_le)

section \<open>Normalizer\<close>

definition normalize_string :: "string \<Rightarrow> string" where
  "normalize_string s0 =
     (let s = lower s0;
          s = re_sub_del match_feat s;
          s = re_sub_del match_bracket s;
          s = filter keep_char s;
          s = collapse_ws s
      in strip s)"

section \<open>ResultCache\<close>

text \<open>
  A resolved match is the dictionary \<open>{"spotify_track_uri": .., "album_name": ..}\<close>; a
  cache entry is such a match or \<open>None\<close> (the tombstone). The cache is a Python
  dictionary with string keys: an association list in insertion order, read with
  \<open>map_of\<close> and written with \<open>AList.update\<close> (in place for a key that is there, at the end
  for a new one). \<open>disk\<close> is the content of the cache file, \<open>None\<close> while the file
  does not exist; \<open>log\<close> lists the search queries sent so far, oldest first.
\<close>

datatype match = Match (match_uri: string) (match_album: string)

type_synonym cache = "(string \<times> match option) list"

record resolver_state =
  cache :: cache
  disk :: "cache option"
  log :: "string list"

definition load_cache :: "cache option \<Rightarrow> cache" where
  "load_cache d = (case d of Some c \<Rightarrow> c | None \<Rightarrow> [])"

definition save_cache :: "resolver_state \<Rightarrow> resolver_state" where
  "save_cache st = st\<lparr>disk := Some (cache st)\<rparr>"

section \<open>The search endpoint\<close>

text \<open>
  One search request either raises inside the \<open>try\<close> block (the connection, the JSON
  decoding or the shape of the top item), which is \<open>Raised\<close>, or gives a status code and
  the list under \<open>tracks.items\<close> (empty when absent). The endpoint, with the bearer token
  of the run, is a parameter of the model: a function of the queries sent before and of
  the query, so that it may answer the same query differently at different times.
\<close>

datatype item = Item (item_uri: string) (item_album_name: string)

datatype response = Raised | Reply nat "item list"

type_synonym network = "string list \<Rightarrow> string \<Rightarrow> response"

section \<open>Resolver\<close>

definition base_key_of :: "string \<Rightarrow> string \<Rightarrow> string" where
  "base_key_of artist track = artist @ ''|'' @ track"

definition queries_of :: "string \<Rightarrow> string \<Rightarrow> string list" where
  "queries_of artist track =
     [track @ '' artist:'' @ artist,
      track @ '' '' @ artist,
      ''track:'' @ track]"

text \<open>
  The loop over the query formulations of \<open>query_spotify_api\<close>. It returns \<open>Some result\<close>
  where the source returns from inside the loop, after writing the cache and the file,
  and \<open>None\<close> where the loop runs to its end.
\<close>

fun search_loop :: "network \<Rightarrow> string \<Rightarrow> string list \<Rightarrow> resolver_state
    \<Rightarrow> match option \<times> resolver_state" where
  "search_loop net base_key [] st = (None, st)"
| "search_loop net base_key (query # queries) st =
     (let st1 = st\<lparr>log := log st @ [query]\<rparr>
      in case net (log st) query of
           Raised \<Rightarrow> search_loop net base_key queries st1
         | Reply status_code items \<Rightarrow>
             if status_code = 200 then
               (case items of
                  [] \<Rightarrow> search_loop net base_key queries st1
                | item # _ \<Rightarrow>
                    let result = Match (item_uri item) (item_album_name item)
                    in (Some result,
                        save_cache (st1\<lparr>cache := AList.update base_key (Some result) (cache st1)\<rparr>)))
             else search_loop net base_key queries st1)"

definition query_spotify_api :: "network \<Rightarrow> string \<Rightarrow> string \<Rightarrow> resolver_state
    \<Rightarrow> match option \<times> resolver_state" where
  "query_spotify_api net artist track st =
     (let base_key = base_key_of artist track
      in case map_of (cache st) base_key of
           Some entry \<Rightarrow> (entry, st)
         | None \<Rightarrow>
             (case search_loop net base_key (queries_of artist track) st of
                (Some result, st') \<Rightarrow> (Some result, st')
              | (None, st') \<Rightarrow>
                  (None, save_cache (st'\<lparr>cache := AList.update base_key None (cache st')\<rparr>))))"

definition alternates :: "string \<Rightarrow> string \<Rightarrow> (string \<times> string) list" where
  "alternates artist_norm track_norm =
     [(artist_norm, track_norm),
      ([], track_norm),
      (hd (split '' feat'' artist_norm), track_norm),
      (artist_norm, re_sub_del match_paren_or_bracket track_norm),
      (artist_norm, strip (replace_del ''remastered'' track_norm))]"

text \<open>
  The loop of \<open>try_alternate_queries\<close>: a variant whose track is blank is skipped; a
  result that is not \<open>None\<close> is returned at once (a match is a non-empty dictionary,
  hence true in a condition; \<open>None\<close> is false).
\<close>

fun alternates_loop :: "network \<Rightarrow> (string \<times> string) list \<Rightarrow> resolver_state
    \<Rightarrow> match option \<times> resolver_state" where
  "alternates_loop net [] st = (None, st)"
| "alternates_loop net ((alt_artist, alt_track) # rest) st =
     (if strip alt_track = [] then alternates_loop net rest st
      else (case query_spotify_api net (strip alt_artist) (strip alt_track) st of
              (Some result, st') \<Rightarrow> (Some result, st')
            | (None, st') \<Rightarrow> alternates_loop net rest st'))"

definition try_alternate_queries :: "network \<Rightarrow> string \<Rightarrow> string \<Rightarrow> resolver_state
    \<Rightarrow> match option \<times> resolver_state" where
  "try_alternate_queries net artist_norm track_norm st =
     alternates_loop net (alternates artist_norm track_norm) st"

section \<open>Input events\<close>

text \<open>
  One input line is a JSON object of the ListenBrainz export, or text that \<open>json.loads\<close>
  rejects. A field of the object is \<open>None\<close> when the key is absent; a field that is
  present has the type of the schema. The files are read as UTF-8: the iteration over
  the lines of a file gives a line, or raises \<open>UnicodeDecodeError\<close> on bytes it cannot
  decode. A \<open>read\<close> is one turn of that iteration.
\<close>

record lb_info =
  duration_ms :: "int option"
  music_service :: "string option"
  spotify_id :: "string option"

record lb_meta =
  artist_name :: "string option"
  track_name :: "string option"
  release_name :: "string option"
  additional_info :: "lb_info option"

record lb_entry =
  listened_at :: "int option"
  track_metadata :: "lb_meta option"

datatype line = NotJson | Json lb_entry

datatype read = Undecodable | Line line

datatype error =
  JSONDecodeError | KeyError string | ValueError | UnicodeEncodeError | UnicodeDecodeError

text \<open>\<open>d.get(key, default)\<close> on a field.\<close>

definition dict_get :: "'a option \<Rightarrow> 'a \<Rightarrow> 'a" where
  "dict_get field dflt = (case field of None \<Rightarrow> dflt | Some v \<Rightarrow> v)"

definition no_info :: lb_info where
  "no_info = \<lparr>duration_ms = None, music_service = None, spotify_id = None\<rparr>"

section \<open>Timestamps\<close>

text \<open>
  \<open>datetime.utcfromtimestamp(t)\<close> for an integer \<open>t\<close> is the epoch, 1970-01-01 (proleptic
  Gregorian ordinal 719163), plus \<open>t\<close> seconds; it raises when the year leaves 1..9999.
  The date of an ordinal is computed as CPython's \<open>_ord2ymd\<close> does, with its tables
  \<open>_DAYS_BEFORE_MONTH\<close> and \<open>_DAYS_IN_MONTH\<close> (index 0 is a placeholder).
\<close>

definition DAYS_IN_MONTH :: "nat list" where
  "DAYS_IN_MONTH = [0, 31, 28, 31, 30, 31, 30, 31, 31, 30, 31, 30, 31]"

definition DAYS_BEFORE_MONTH :: "nat list" where
  "DAYS_BEFORE_MONTH = [0, 0, 31, 59, 90, 120, 151, 181, 212, 243, 273, 304, 334]"

definition ord2ymd :: "nat \<Rightarrow> nat \<times> nat \<times> nat" where
  "ord2ymd ordinal =
     (let n = ordinal - 1;
          n400 = n div 146097; n = n mod 146097;
          n100 = n div 36524; n = n mod 36524;
          n4 = n div 1461; n = n mod 1461;
          n1 = n div 365; n = n mod 365;
          year = n400 * 400 + 1 + n100 * 100 + n4 * 4 + n1
      in if n1 = 4 \<or> n100 = 4 then (year - 1, 12, 31)
         else
           let leapyear = (n1 = 3 \<and> (n4 \<noteq> 24 \<or> n100 = 3));
               month = (n + 50) div 32;
               preceding = DAYS_BEFORE_MONTH ! month + (if month > 2 \<and> leapyear then 1 else 0)
           in if preceding > n
              then let month' = month - 1;
                       preceding' = preceding
                         - (DAYS_IN_MONTH ! month' + (if month' = 2 \<and> leapyear then 1 else 0))
                   in (year, month', n - preceding' + 1)
              else (year, month, n - preceding + 1))"

record datetime =
  year :: nat
  month :: nat
  day :: nat
  hour :: nat
  minute :: nat
  second :: nat

definition utcfromtimestamp :: "int \<Rightarrow> datetime option" where
  "utcfromtimestamp t =
     (let ordinal = 719163 + t div 86400;
          secs = nat (t mod 86400)
      in if ordinal < 1 \<or> 3652059 < ordinal then None
         else
           (case ord2ymd (nat ordinal) of
              (y, m, d) \<Rightarrow>
                Some \<lparr>year = y, month = m, day = d,
                      hour = secs div 3600, minute = secs mod 3600 div 60,
                      second = secs mod 60\<rparr>))"

definition digit :: "nat \<Rightarrow> char" where
  "digit n = ''0123456789'' ! (n mod 10)"

definition pad2 :: "nat \<Rightarrow> string" where
  "pad2 n = [digit (n div 10), digit n]"

definition pad4 :: "nat \<Rightarrow> string" where
  "pad4 n = [digit (n div 1000), digit (n div 100), digit (n div 10), digit n]"

text \<open>\<open>isoformat()\<close> of a datetime without microseconds: \<open>YYYY-MM-DDTHH:MM:SS\<close>.\<close>

definition isoformat :: "datetime \<Rightarrow> string" where
  "isoformat dt =
     pad4 (year dt) @ ''-'' @ pad2 (month dt) @ ''-'' @ pad2 (day dt) @ ''T''
       @ pad2 (hour dt) @ '':'' @ pad2 (minute dt) @ '':'' @ pad2 (second dt)"

section \<open>RecordBuilder\<close>

record output_record =
  ts :: string
  username :: string
  platform :: string
  ms_played :: int
  conn_country :: string
  ip_addr_decrypted :: "string option"
  user_agent_decrypted :: "string option"
  master_metadata_track_name :: string
  master_metadata_album_artist_name :: string
  master_metadata_album_album_name :: string
  spotify_track_uri :: "string option"
  episode_name :: "string option"
  episode_show_name :: "string option"
  spotify_episode_uri :: "string option"
  reason_start :: string
  reason_end :: "string option"
  shuffle :: bool
  skipped :: bool
  offline :: bool
  offline_timestamp :: int
  incognito_mode :: bool

text \<open>
  \<open>lb_spotify_id and "open.spotify.com/track/" in lb_spotify_id\<close>: the identifier is
  present, not empty, and contains the pattern.
\<close>

definition has_track_url :: "string option \<Rightarrow> bool" where
  "has_track_url sid =
     (case sid of
        None \<Rightarrow> False
      | Some s \<Rightarrow> s \<noteq> [] \<and> contains ''open.spotify.com/track/'' s)"

definition convert_lb_entry_to_spotify_format :: "lb_entry \<Rightarrow> string \<Rightarrow> string
    \<Rightarrow> error + output_record" where
  "convert_lb_entry_to_spotify_format entry username' country_code =
     (case track_metadata entry of
        None \<Rightarrow> Inl (KeyError ''track_metadata'')
      | Some meta \<Rightarrow>
          let info = dict_get (additional_info meta) no_info
          in case listened_at entry of
               None \<Rightarrow> Inl (KeyError ''listened_at'')
             | Some t \<Rightarrow>
                 (case utcfromtimestamp t of
                    None \<Rightarrow> Inl ValueError
                  | Some dt \<Rightarrow>
                      let ts_raw = isoformat dt @ ''Z'';
                          artist_raw = strip (dict_get (artist_name meta) []);
                          track_raw = strip (dict_get (track_name meta) []);
                          album_raw = strip (dict_get (release_name meta) []);
                          spotify_uri =
                            (if has_track_url (spotify_id info)
                             then Some (''spotify:track:''
                                        @ last (split ''/'' (the (spotify_id info))))
                             else None)
                      in Inr \<lparr>ts = ts_raw,
                              username = username',
                              platform = ''ListenBrainz Importer'',
                              ms_played = dict_get (duration_ms info) 0,
                              conn_country = country_code,
                              ip_addr_decrypted = None,
                              user_agent_decrypted = None,
                              master_metadata_track_name = track_raw,
                              master_metadata_album_artist_name = artist_raw,
                              master_metadata_album_album_name = album_raw,
                              spotify_track_uri = spotify_uri,
                              episode_name = None,
                              episode_show_name = None,
                              spotify_episode_uri = None,
                              reason_start = ''trackdone'',
                              reason_end = None,
                              shuffle = False,
                              skipped = False,
                              offline = True,
                              offline_timestamp = t * 1000,
                              incognito_mode = False\<rparr>))"

section \<open>ConversionPipeline\<close>

text \<open>
  The state of one run: the resolver's state, the set \<open>unknowns\<close>, the list
  \<open>output_data\<close>, the two counters, and the errors printed by the handler of the loop
  body. An entry of \<open>unknowns\<close> is the pair of the raw artist and the raw track; the
  source joins the two with a dash (U+2013) between spaces, a character outside the
  modelled code points.
\<close>

record pipeline =
  resolver :: resolver_state
  unknowns :: "(string \<times> string) set"
  output_data :: "output_record list"
  processed_count :: nat
  skipped_spotify :: nat
  errors :: "error list"

text \<open>
  \<open>print\<close> raises \<open>UnicodeEncodeError\<close> on text the console cannot encode. The fixed parts
  of the messages and the normalized strings are taken to be printable; a raw artist or
  track name may not be (with a UTF-8 console: a name that holds a lone surrogate, which
  \<open>json.loads\<close> accepts from an escape). The console is a parameter of the model: it says
  whether a message with these raw strings in it can be printed.
\<close>

type_synonym console = "string list \<Rightarrow> bool"

text \<open>
  The body of the \<open>try\<close> block for one line: the exception that reaches the handler, if
  one is raised, and the state as the body leaves it. In the fast path the record is
  appended and counted before the message with the artist and the track of the record is
  printed. Every other raise of the body comes before its first write to the state.
\<close>

definition process_line :: "console \<Rightarrow> network \<Rightarrow> string \<Rightarrow> string \<Rightarrow> line \<Rightarrow> pipeline
    \<Rightarrow> error option \<times> pipeline" where
  "process_line printable net username' country_code ln p =
     (case ln of
        NotJson \<Rightarrow> (Some JSONDecodeError, p)
      | Json entry \<Rightarrow>
          (case track_metadata entry of
             None \<Rightarrow> (Some (KeyError ''track_metadata''), p)
           | Some meta \<Rightarrow>
               let info = dict_get (additional_info meta) no_info
               in if music_service info = Some ''spotify.com''
                  then (None, p\<lparr>skipped_spotify := skipped_spotify p + 1\<rparr>)
                  else
                    (case listened_at entry of
                       None \<Rightarrow> (Some (KeyError ''listened_at''), p)
                     | Some t \<Rightarrow>
                         (case utcfromtimestamp t of
                            None \<Rightarrow> (Some ValueError, p)
                          | Some dt \<Rightarrow>
                              let ts_raw = isoformat dt @ ''Z'';
                                  artist_raw = strip (dict_get (artist_name meta) []);
                                  track_raw = strip (dict_get (track_name meta) []);
                                  album_raw = strip (dict_get (release_name meta) []);
                                  artist_norm = normalize_string artist_raw;
                                  track_norm = normalize_string track_raw
                              in if has_track_url (spotify_id info)
                                 then
                                   (case convert_lb_entry_to_spotify_format entry username'
                                           country_code of
                                      Inl e \<Rightarrow> (Some e, p)
                                    | Inr rcd \<Rightarrow>
                                        let p' = p\<lparr>output_data := output_data p @ [rcd],
                                                   processed_count := processed_count p + 1\<rparr>
                                        in if printable [master_metadata_album_artist_name rcd,
                                                         master_metadata_track_name rcd]
                                           then (None, p')
                                           else (Some UnicodeEncodeError, p'))
                                 else
                                   (case try_alternate_queries net artist_norm track_norm
                                           (resolver p) of
                                      (api_result, st') \<Rightarrow>
                                        let spotify_uri = map_option match_uri api_result;
                                            album_name =
                                              (case api_result of
                                                 Some r \<Rightarrow> match_album r
                                               | None \<Rightarrow> album_raw);
                                            unknowns' =
                                              (case api_result of
                                                 Some r \<Rightarrow> unknowns p
                                               | None \<Rightarrow>
                                                   insert (artist_raw, track_raw) (unknowns p));
                                            rcd =
                                              \<lparr>ts = ts_raw,
                                               username = username',
                                               platform = ''ListenBrainz Importer'',
                                               ms_played = dict_get (duration_ms info) 0,
                                               conn_country = country_code,
                                               ip_addr_decrypted = None,
                                               user_agent_decrypted = None,
                                               master_metadata_track_name = track_raw,
                                               master_metadata_album_artist_name = artist_raw,
                                               master_metadata_album_album_name = album_name,
                                               spotify_track_uri = spotify_uri,
                                               episode_name = None,
                                               episode_show_name = None,
                                               spotify_episode_uri = None,
                                               reason_start = ''trackdone'',
                                               reason_end = None,
                                               shuffle = False,
                                               skipped = False,
                                               offline = True,
                                               offline_timestamp = t * 1000,
                                               incognito_mode = False\<rparr>
                                        in (None,
                                            p\<lparr>resolver := st',
                                              unknowns := unknowns',
                                              output_data := output_data p @ [rcd],
                                              processed_count := processed_count p + 1\<rparr>))))))"

text \<open>
  One turn of the loop over the lines: the body, and the handler, which prints the error
  and keeps the state as the body left it.
\<close>

definition step :: "console \<Rightarrow> network \<Rightarrow> string \<Rightarrow> string \<Rightarrow> pipeline \<Rightarrow> line \<Rightarrow> pipeline" where
  "step printable net username' country_code p ln =
     (case process_line printable net username' country_code ln p of
        (None, p') \<Rightarrow> p'
      | (Some e, p') \<Rightarrow> p'\<lparr>errors := errors p' @ [e]\<rparr>)"

text \<open>
  The loop over the lines of the files. The iterator raises outside the \<open>try\<close> block: a
  line that cannot be decoded ends the run with the exception (\<open>Inl\<close>), before the output
  file and the unknowns file are written.
\<close>

fun run_lines :: "console \<Rightarrow> network \<Rightarrow> string \<Rightarrow> string \<Rightarrow> read list \<Rightarrow> pipeline
    \<Rightarrow> error + pipeline" where
  "run_lines printable net username' country_code [] p = Inr p"
| "run_lines printable net username' country_code (Undecodable # rest) p = Inl UnicodeDecodeError"
| "run_lines printable net username' country_code (Line ln # rest) p =
     run_lines printable net username' country_code rest
       (step printable net username' country_code p ln)"

definition start :: "cache option \<Rightarrow> pipeline" where
  "start file =
     \<lparr>resolver = \<lparr>cache = load_cache file, disk = file, log = []\<rparr>,
      unknowns = {},
      output_data = [],
      processed_count = 0,
      skipped_spotify = 0,
      errors = []\<rparr>"

text \<open>
  \<open>convert_with_spotify_api\<close> on what the iteration over the input files gives, in the
  order the files are walked, and on the cache file found at the start; the final state
  holds what is written to the output file and to the unknowns file.
\<close>

definition convert_with_spotify_api :: "console \<Rightarrow> network \<Rightarrow> read list \<Rightarrow> cache option
    \<Rightarrow> string \<Rightarrow> string \<Rightarrow> error + pipeline" where
  "convert_with_spotify_api printable net reads file username' country_code =
     run_lines printable net username' country_code reads (start file)"

text \<open>
  The lines on which the body raises before it writes, with the exception raised: text
  that is not JSON,
  an object without \<open>track_metadata\<close>, and, unless the event is skipped as a Spotify
  event first, an object without \<open>listened_at\<close> or with a time outside the years 1 to
  9999.
\<close>

definition line_error :: "line \<Rightarrow> error option" where
  "line_error ln =
     (case ln of
        NotJson \<Rightarrow> Some JSONDecodeError
      | Json entry \<Rightarrow>
          (case track_metadata entry of
             None \<Rightarrow> Some (KeyError ''track_metadata'')
           | Some meta \<Rightarrow>
               if music_service (dict_get (additional_info meta) no_info) = Some ''spotify.com''
               then None
               else
                 (case listened_at entry of
                    None \<Rightarrow> Some (KeyError ''listened_at'')
                  | Some t \<Rightarrow>
                      (case utcfromtimestamp t of
                         None \<Rightarrow> Some ValueError
                       | Some dt \<Rightarrow> None))))"

section \<open>Properties of normalized strings\<close>

fun single_spaced :: "string \<Rightarrow> bool" where
  "single_spaced [] = True"
| "single_spaced (c # cs) =
     ((isspace c \<longrightarrow> c = CHR '' '' \<and> (cs = [] \<or> \<not> isspace (hd cs))) \<and> single_spaced cs)"

text \<open>
  The normal form: only lowercase letters, digits and spaces, every space single, none at
  either end.
\<close>

definition normalized :: "string \<Rightarrow> bool" where
  "normalized s \<longleftrightarrow> (\<forall>c \<in> set s. keep_char c) \<and> single_spaced s \<and> strip s = s"

section \<open>The calendar\<close>

text \<open>
  The proleptic Gregorian calendar, as CPython's \<open>_is_leap\<close>, \<open>_days_before_year\<close>,
  \<open>_days_in_month\<close>, \<open>_days_before_month\<close> and \<open>_ymd2ord\<close> define it: the ordinal of a date,
  counted from 1 for the first of January of the year 1. \<open>timestamp\<close> is the number of
  seconds from the epoch to a date and time of day in UTC.
\<close>

definition is_leap :: "nat \<Rightarrow> bool" where
  "is_leap y \<longleftrightarrow> y mod 4 = 0 \<and> (y mod 100 \<noteq> 0 \<or> y mod 400 = 0)"

definition days_before_year :: "nat \<Rightarrow> nat" where
  "days_before_year y = (y - 1) * 365 + (y - 1) div 4 - (y - 1) div 100 + (y - 1) div 400"

definition days_in_month :: "nat \<Rightarrow> nat \<Rightarrow> nat" where
  "days_in_month y m = DAYS_IN_MONTH ! m + (if m = 2 \<and> is_leap y then 1 else 0)"

definition days_before_month :: "nat \<Rightarrow> nat \<Rightarrow> nat" where
  "days_before_month y m = DAYS_BEFORE_MONTH ! m + (if m > 2 \<and> is_leap y then 1 else 0)"

definition ymd2ord :: "nat \<Rightarrow> nat \<Rightarrow> nat \<Rightarrow> nat" where
  "ymd2ord y m d = days_before_year y + days_before_month y m + d"

definition valid_datetime :: "datetime \<Rightarrow> bool" where
  "valid_datetime dt \<longleftrightarrow>
     1 \<le> year dt \<and> year dt \<le> 9999 \<and> 1 \<le> month dt \<and> month dt \<le> 12
     \<and> 1 \<le> day dt \<and> day dt \<le> days_in_month (year dt) (month dt)
     \<and> hour dt < 24 \<and> minute dt < 60 \<and> second dt < 60"

definition timestamp :: "datetime \<Rightarrow> int" where
  "timestamp dt =
     (int (ymd2ord (year dt) (month dt) (day dt)) - 719163) * 86400
       + int (hour dt) * 3600 + int (minute dt) * 60 + int (second dt)"

section \<open>What the endpoint answered\<close>

text \<open>
  The result items of a response are the items of a reply with status 200; the match a
  response gives is built from its top item.
\<close>

definition hits :: "response \<Rightarrow> item list" where
  "hits resp =
     (case resp of
        Raised \<Rightarrow> []
      | Reply status_code items \<Rightarrow> if status_code = 200 then items else [])"

definition top_result :: "response \<Rightarrow> match option" where
  "top_result resp =
     (case hits resp of
        [] \<Rightarrow> None
      | item # _ \<Rightarrow> Some (Match (item_uri item) (item_album_name item)))"

text \<open>
  The variants of a resolve in their priority order, (a) to (e), as \<open>query_spotify_api\<close>
  receives them: both parts stripped, a variant with a blank track left out.
\<close>

definition stripped :: "(string \<times> string) list \<Rightarrow> (string \<times> string) list" where
  "stripped alts = map (\<lambda>(a, t). (strip a, strip t)) (filter (\<lambda>(a, t). strip t \<noteq> []) alts)"

definition tried :: "string \<Rightarrow> string \<Rightarrow> (string \<times> string) list" where
  "tried artist_norm track_norm =
     stripped
       [(artist_norm, track_norm),
        ([], track_norm),
        (hd (split '' feat'' artist_norm), track_norm),
        (artist_norm, re_sub_del match_paren_or_bracket track_norm),
        (artist_norm, strip (replace_del ''remastered'' track_norm))]"

text \<open>
  Sending queries in order until one is answered with a result item: the queries sent,
  and the match of the last one, if it gave one. \<open>old\<close> holds the queries sent before.
\<close>

fun until_win :: "network \<Rightarrow> string list \<Rightarrow> string list \<Rightarrow> string list \<times> match option" where
  "until_win net old [] = ([], None)"
| "until_win net old (q # qs) =
     (case top_result (net old q) of
        Some m \<Rightarrow> ([q], Some m)
      | None \<Rightarrow> (case until_win net (old @ [q]) qs of (sent, won) \<Rightarrow> (q # sent, won)))"

text \<open>The match a cache holds under the key of a variant, if it holds one.\<close>

definition cached :: "cache \<Rightarrow> string \<times> string \<Rightarrow> match option" where
  "cached c v =
     (case map_of c (base_key_of (fst v) (snd v)) of
        None \<Rightarrow> None
      | Some entry \<Rightarrow> entry)"

text \<open>
  The variants whose key is not among \<open>keys\<close> and is not the key of an earlier variant of
  the list either.
\<close>

fun unseen :: "string list \<Rightarrow> (string \<times> string) list \<Rightarrow> (string \<times> string) list" where
  "unseen keys [] = []"
| "unseen keys (v # vs) =
     (if base_key_of (fst v) (snd v) \<in> set keys then unseen keys vs
      else v # unseen (base_key_of (fst v) (snd v) # keys) vs)"

text \<open>
  The variants that are queried on the network when no query wins: those that come
  before the first variant with a cached match, and whose key the cache does not hold,
  each key once. \<open>fallback\<close> is that cached match, the answer when no query wins.
\<close>

definition asked :: "cache \<Rightarrow> (string \<times> string) list \<Rightarrow> (string \<times> string) list" where
  "asked c vs = unseen (map fst c) (takeWhile (\<lambda>v. cached c v = None) vs)"

definition fallback :: "cache \<Rightarrow> (string \<times> string) list \<Rightarrow> match option" where
  "fallback c vs =
     (case dropWhile (\<lambda>v. cached c v = None) vs of
        [] \<Rightarrow> None
      | v # _ \<Rightarrow> cached c v)"

text \<open>
  What a resolve of the variants \<open>vs\<close> is to send from the state \<open>st\<close>: the formulations
  of the variants asked, variant after variant, until one is answered with a result
  item; and what it is to return: the match of that item, or else the cached match.
\<close>

definition formulations :: "(string \<times> string) list \<Rightarrow> string list" where
  "formulations vs =
     concat (map (\<lambda>(a, t). [t @ '' artist:'' @ a, t @ '' '' @ a, ''track:'' @ t]) vs)"

definition plan :: "network \<Rightarrow> resolver_state \<Rightarrow> (string \<times> string) list
    \<Rightarrow> string list \<times> match option" where
  "plan net st vs = until_win net (log st) (formulations (asked (cache st) vs))"

definition answer :: "network \<Rightarrow> resolver_state \<Rightarrow> (string \<times> string) list \<Rightarrow> match option" where
  "answer net st vs =
     (case snd (plan net st vs) of
        Some m \<Rightarrow> Some m
      | None \<Rightarrow> fallback (cache st) vs)"

text \<open>The cache in memory is what the cache file holds (or empty, with no file).\<close>

definition synced :: "resolver_state \<Rightarrow> bool" where
  "synced st \<longleftrightarrow> load_cache (disk st) = cache st"

text \<open>Resolving a list of pairs one after the other, as the pipeline does within a run.\<close>

fun resolve_all :: "network \<Rightarrow> (string \<times> string) list \<Rightarrow> resolver_state \<Rightarrow> resolver_state" where
  "resolve_all net [] st = st"
| "resolve_all net ((artist_norm, track_norm) # rest) st =
     resolve_all net rest (snd (try_alternate_queries net artist_norm track_norm st))"

text \<open>The state a later run starts from: the cache is loaded from the file, nothing is sent yet.\<close>

definition next_run :: "resolver_state \<Rightarrow> resolver_state" where
  "next_run st = \<lparr>cache = load_cache (disk st), disk = disk st, log = []\<rparr>"

section \<open>Example inputs\<close>

definition found_item :: item where
  "found_item = Item ''spotify:track:abc123'' ''Let It Be''"

definition found_match :: match where
  "found_match = Match ''spotify:track:abc123'' ''Let It Be''"

text \<open>Search endpoints: one that finds every query, one that is down, one that finds one query only.\<close>

definition stub_found :: network where
  "stub_found h q = Reply 200 [found_item]"

definition stub_down :: network where
  "stub_down h q = Raised"

definition stub_only :: "string \<Rightarrow> network" where
  "stub_only q0 h q = (if q = q0 then Reply 200 [found_item] else Reply 200 [])"

definition empty_state :: resolver_state where
  "empty_state = \<lparr>cache = [], disk = None, log = []\<rparr>"

text \<open>A cache that holds a tombstone for the artist \<open>a\<close> and the track \<open>t\<close>.\<close>

definition tombstone_state :: resolver_state where
  "tombstone_state = \<lparr>cache = [(''a|t'', None)], disk = Some [(''a|t'', None)], log = []\<rparr>"

definition beatles_entry :: lb_entry where
  "beatles_entry =
     \<lparr>listened_at = Some 1700000000,
      track_metadata = Some
        \<lparr>artist_name = Some ''The Beatles'', track_name = Some ''Let It Be'',
         release_name = None,
         additional_info = Some
           \<lparr>duration_ms = Some 243000, music_service = None, spotify_id = None\<rparr>\<rparr>\<rparr>"

text \<open>An event played on Spotify, with its track page, and the same event from another service.\<close>

definition spotify_entry :: lb_entry where
  "spotify_entry =
     \<lparr>listened_at = Some 1700000000,
      track_metadata = Some
        \<lparr>artist_name = Some ''The Beatles'', track_name = Some ''Let It Be'',
         release_name = Some ''Let It Be'',
         additional_info = Some
           \<lparr>duration_ms = None, music_service = Some ''spotify.com'',
            spotify_id = Some ''https://open.spotify.com/track/7iN1s7xHE4ifF5povM6A48''\<rparr>\<rparr>\<rparr>"

definition direct_entry :: lb_entry where
  "direct_entry =
     \<lparr>listened_at = Some 1700000000,
      track_metadata = Some
        \<lparr>artist_name = Some ''The Beatles'', track_name = Some ''Let It Be'',
         release_name = Some ''Let It Be'',
         additional_info = Some
           \<lparr>duration_ms = None, music_service = None,
            spotify_id = Some ''https://open.spotify.com/track/7iN1s7xHE4ifF5povM6A48''\<rparr>\<rparr>\<rparr>"

text \<open>The record of the end-to-end example, for the user \<open>me\<close> in the country \<open>XX\<close>.\<close>

definition beatles_record :: output_record where
  "beatles_record =
     \<lparr>ts = ''2023-11-14T22:13:20Z'',
      username = ''me'',
      platform = ''ListenBrainz Importer'',
      ms_played = 243000,
      conn_country = ''XX'',
      ip_addr_decrypted = None,
      user_agent_decrypted = None,
      master_metadata_track_name = ''Let It Be'',
      master_metadata_album_artist_name = ''The Beatles'',
      master_metadata_album_album_name = ''Let It Be'',
      spotify_track_uri = Some ''spotify:track:abc123'',
      episode_name = None,
      episode_show_name = None,
      spotify_episode_uri = None,
      reason_start = ''trackdone'',
      reason_end = None,
      shuffle = False,
      skipped = False,
      offline = True,
      offline_timestamp = 1700000000000,
      incognito_mode = False\<rparr>"

text \<open>
  A name that a UTF-8 console cannot print: in the source, a name with a lone surrogate
  in it (the escape of U+D83D in the JSON text of the line, which \<open>json.loads\<close> accepts).
  The strings of the model hold code points below 256, so the name is a stand-in here,
  and the console is the one that prints every name but this one.
\<close>

definition lone_surrogate :: string where
  "lone_surrogate = ''?''"

definition console_utf8 :: console where
  "console_utf8 names = (lone_surrogate \<notin> set names)"

definition surrogate_entry :: lb_entry where
  "surrogate_entry =
     \<lparr>listened_at = Some 1700000000,
      track_metadata = Some
        \<lparr>artist_name = Some lone_surrogate, track_name = Some ''Let It Be'',
         release_name = None,
         additional_info = Some
           \<lparr>duration_ms = None, music_service = None,
            spotify_id = Some ''https://open.spotify.com/track/7iN1s7xHE4ifF5povM6A48''\<rparr>\<rparr>\<rparr>"

section \<open>Normalizer: the normal form and idempotence\<close>
lemma keep_char_lower: "keep_char c \<Longrightarrow> lower_char c = c"
  unfolding keep_char_def lower_char_def by (auto simp: Let_def)

lemma keep_char_isspace: "keep_char c \<Longrightarrow> isspace c \<Longrightarrow> c = CHR '' ''"
  unfolding keep_char_def isspace_def by auto

lemma keep_char_not_special:
  "keep_char c \<Longrightarrow> c \<noteq> CHR ''('' \<and> c \<noteq> CHR ''[''"
  unfolding keep_char_def by auto

lemma strip_prefix_dropWhile_absent:
  "x \<notin> set s \<Longrightarrow> strip_prefix (x # p) (dropWhile P s) = None"
proof -
  assume a: "x \<notin> set s"
  show ?thesis
  proof (cases "dropWhile P s")
    case Nil
    then show ?thesis by (simp only: strip_prefix.simps)
  next
    case (Cons d ds)
    then have "d \<in> set (dropWhile P s)" by simp
    then have "d \<in> set s" using set_dropWhileD by fastforce
    with a have "x \<noteq> d" by auto
    with Cons show ?thesis by simp
  qed
qed

lemma strip_prefix_absent:
  "x \<notin> set s \<Longrightarrow> strip_prefix (x # p) s = None"
  by (cases s) auto

lemma re_sub_del_none:
  "(\<And>t. set t \<subseteq> set s \<Longrightarrow> m t = None) \<Longrightarrow> re_sub_del m s = s"
proof (induction s)
  case Nil
  then show ?case by simp
next
  case (Cons c cs)
  have "m (c # cs) = None" using Cons.prems by blast
  moreover have "re_sub_del m cs = cs"
    using Cons.IH Cons.prems by (meson set_subset_Cons subset_trans)
  ultimately show ?case by simp
qed


lemma match_feat_none: "CHR ''('' \<notin> set s \<Longrightarrow> match_feat s = None"
  unfolding match_feat_def by (simp add: strip_prefix_dropWhile_absent)

lemma match_bracket_none: "CHR ''['' \<notin> set s \<Longrightarrow> match_bracket s = None"
  unfolding match_bracket_def by (simp add: strip_prefix_dropWhile_absent)

lemma match_paren_or_bracket_none:
  "CHR ''('' \<notin> set s \<Longrightarrow> CHR ''['' \<notin> set s \<Longrightarrow> match_paren_or_bracket s = None"
  unfolding match_paren_or_bracket_def
  by (simp add: strip_prefix_dropWhile_absent strip_prefix_absent)

lemma re_sub_del_feat_id: "CHR ''('' \<notin> set s \<Longrightarrow> re_sub_del match_feat s = s"
  by (rule re_sub_del_none) (auto intro: match_feat_none)

lemma re_sub_del_bracket_id: "CHR ''['' \<notin> set s \<Longrightarrow> re_sub_del match_bracket s = s"
  by (rule re_sub_del_none) (auto intro: match_bracket_none)

lemma re_sub_del_paren_or_bracket_id:
  "CHR ''('' \<notin> set s \<Longrightarrow> CHR ''['' \<notin> set s \<Longrightarrow> re_sub_del match_paren_or_bracket s = s"
  by (rule re_sub_del_none) (auto intro: match_paren_or_bracket_none)

lemma isspace_space: "isspace CHR '' ''"
  by (simp add: isspace_def)

lemma collapse_ws_Nil_iff: "collapse_ws s = [] \<longleftrightarrow> s = []"
  by (cases s) auto

lemma hd_collapse_ws: "s \<noteq> [] \<Longrightarrow> \<not> isspace (hd s) \<Longrightarrow> hd (collapse_ws s) = hd s"
  by (cases s) auto

lemma dropWhile_head: "dropWhile P s = [] \<or> \<not> P (hd (dropWhile P s))"
  using hd_dropWhile by blast

lemma collapse_ws_head:
  "r = [] \<or> \<not> isspace (hd r) \<Longrightarrow> collapse_ws r = [] \<or> \<not> isspace (hd (collapse_ws r))"
  by (cases r) auto

lemma single_spaced_collapse_ws: "single_spaced (collapse_ws s)"
proof (induction s rule: collapse_ws.induct)
  case 1
  then show ?case by simp
next
  case (2 c cs)
  show ?case
  proof (cases "isspace c")
    case True
    let ?r = "dropWhile isspace cs"
    have "?r = [] \<or> \<not> isspace (hd ?r)" by (rule dropWhile_head)
    then have "collapse_ws ?r = [] \<or> \<not> isspace (hd (collapse_ws ?r))"
      by (rule collapse_ws_head)
    with True 2 show ?thesis by simp
  next
    case False
    with 2 show ?thesis by simp
  qed
qed

lemma collapse_ws_single_spaced: "single_spaced s \<Longrightarrow> collapse_ws s = s"
proof (induction s)
  case Nil
  then show ?case by simp
next
  case (Cons c cs)
  then have ih: "collapse_ws cs = cs" by simp
  show ?case
  proof (cases "isspace c")
    case True
    with Cons.prems have c: "c = CHR '' ''" and h: "cs = [] \<or> \<not> isspace (hd cs)" by auto
    from h have "dropWhile isspace cs = cs" by (cases cs) auto
    with True c ih show ?thesis by simp
  next
    case False
    with ih show ?thesis by simp
  qed
qed

lemma single_spaced_drop: "single_spaced s \<Longrightarrow> single_spaced (drop n s)"
proof (induction s arbitrary: n)
  case Nil
  then show ?case by simp
next
  case (Cons c cs)
  then show ?case by (cases n) auto
qed

lemma single_spaced_take: "single_spaced s \<Longrightarrow> single_spaced (take n s)"
proof (induction s arbitrary: n)
  case Nil
  then show ?case by simp
next
  case (Cons c cs)
  show ?case
  proof (cases n)
    case 0
    then show ?thesis by simp
  next
    case (Suc k)
    have "take k cs = [] \<or> hd (take k cs) = hd cs" by (cases cs; cases k) auto
    with Cons Suc show ?thesis by auto
  qed
qed

lemma rev_drop_rev: "rev (drop i (rev t)) = take (length t - i) t"
  by (simp add: rev_drop)

lemma strip_take_drop: "\<exists>j k. strip s = take k (drop j s)"
proof -
  obtain j where j: "dropWhile isspace s = drop j s"
    using dropWhile_eq_drop by blast
  obtain i where i: "dropWhile isspace (rev (drop j s)) = drop i (rev (drop j s))"
    using dropWhile_eq_drop by blast
  have "strip s = rev (drop i (rev (drop j s)))" by (simp add: strip_def j i)
  also have "\<dots> = take (length (drop j s) - i) (drop j s)" by (rule rev_drop_rev)
  finally show ?thesis by blast
qed

lemma single_spaced_strip:
  assumes "single_spaced s"
  shows "single_spaced (strip s)"
proof -
  obtain j k where e: "strip s = take k (drop j s)"
    using strip_take_drop by blast
  from assms show ?thesis
    unfolding e by (intro single_spaced_take single_spaced_drop)
qed

lemma set_strip: "set (strip s) \<subseteq> set s"
proof -
  obtain j k where e: "strip s = take k (drop j s)"
    using strip_take_drop by blast
  have "set (take k (drop j s)) \<subseteq> set (drop j s)" by (rule set_take_subset)
  also have "\<dots> \<subseteq> set s" by (rule set_drop_subset)
  finally show ?thesis unfolding e .
qed

lemma set_collapse_ws: "set (collapse_ws s) \<subseteq> insert CHR '' '' (set s)"
proof (induction s rule: collapse_ws.induct)
  case 1
  then show ?case by simp
next
  case (2 c cs)
  have "set (dropWhile isspace cs) \<subseteq> set cs" by (auto dest: set_dropWhileD)
  with 2 show ?case by (cases "isspace c") auto
qed


lemma strip_Nil: "strip [] = []"
  by (simp add: strip_def)

lemma strip_fixed:
  assumes "t = [] \<or> (\<not> isspace (hd t) \<and> \<not> isspace (last t))"
  shows "strip t = t"
proof (cases "t = []")
  case True
  then show ?thesis by (simp add: strip_Nil)
next
  case False
  with assms have h: "\<not> isspace (hd t)" and l: "\<not> isspace (last t)" by auto
  from False h have a: "dropWhile isspace t = t" by (cases t) auto
  from False l have "\<not> isspace (hd (rev t))" by (simp add: hd_rev)
  with False have b: "dropWhile isspace (rev t) = rev t" by (cases "rev t") auto
  show ?thesis by (simp add: strip_def a b)
qed

lemma strip_ends: "strip s = [] \<or> (\<not> isspace (hd (strip s)) \<and> \<not> isspace (last (strip s)))"
proof (cases "strip s = []")
  case True
  then show ?thesis by simp
next
  case False
  let ?z = "dropWhile isspace s"
  let ?w = "dropWhile isspace (rev ?z)"
  have e: "strip s = rev ?w" by (simp add: strip_def)
  with False have w: "?w \<noteq> []" by simp
  then have hw: "\<not> isspace (hd ?w)" using dropWhile_head [of isspace "rev ?z"] by blast
  have z: "?z \<noteq> []"
  proof
    assume "?z = []"
    then have "?w = []" by (simp only: rev.simps dropWhile.simps)
    with w show False by contradiction
  qed
  then have hz: "\<not> isspace (hd ?z)" using dropWhile_head [of isspace s] by blast
  obtain i where i: "?w = drop i (rev ?z)" using dropWhile_eq_drop by blast
  from w i have "last ?w = last (rev ?z)" by (metis drop_eq_Nil last_drop not_le)
  with z have lw: "last ?w = hd ?z" by (simp add: last_rev)
  from w have "hd (strip s) = last ?w" and "last (strip s) = hd ?w"
    unfolding e by (simp_all add: hd_rev last_rev)
  with lw hz hw False show ?thesis by simp
qed

lemma strip_strip: "strip (strip s) = strip s"
  by (rule strip_fixed) (rule strip_ends)

lemma keep_char_space: "keep_char CHR '' ''"
  by (simp add: keep_char_def)

lemma normalized_normalize_string: "normalized (normalize_string x)"
proof -
  let ?f = "filter keep_char (re_sub_del match_bracket (re_sub_del match_feat (lower x)))"
  have n: "normalize_string x = strip (collapse_ws ?f)"
    by (simp add: normalize_string_def)
  have "set (strip (collapse_ws ?f)) \<subseteq> set (collapse_ws ?f)" by (rule set_strip)
  also have "\<dots> \<subseteq> insert CHR '' '' (set ?f)" by (rule set_collapse_ws)
  finally have "\<forall>c \<in> set (strip (collapse_ws ?f)). keep_char c"
    using keep_char_space by auto
  moreover have "single_spaced (strip (collapse_ws ?f))"
    by (intro single_spaced_strip single_spaced_collapse_ws)
  ultimately show ?thesis
    unfolding n normalized_def by (simp add: strip_strip)
qed

lemma normalized_no_special:
  "normalized s \<Longrightarrow> CHR ''('' \<notin> set s \<and> CHR ''['' \<notin> set s"
  unfolding normalized_def using keep_char_not_special by blast

lemma normalize_string_normalized:
  assumes "normalized s"
  shows "normalize_string s = s"
proof -
  from assms have k: "\<forall>c \<in> set s. keep_char c" and sp: "single_spaced s" and st: "strip s = s"
    by (simp_all add: normalized_def)
  from k have l: "lower s = s"
    unfolding lower_def by (intro map_idI) (simp add: keep_char_lower)
  from assms have p: "CHR ''('' \<notin> set s" and b: "CHR ''['' \<notin> set s"
    using normalized_no_special by blast+
  from k have f: "filter keep_char s = s" by simp
  show ?thesis
    by (simp add: normalize_string_def l re_sub_del_feat_id [OF p] re_sub_del_bracket_id [OF b]
        f collapse_ws_single_spaced [OF sp] st)
qed

text \<open>
  Claim C3. \<open>normalize_string\<close> is a total function of its argument and is idempotent:
  normalizing a normalized string changes nothing. On \<open>Song (feat. X) [Remix]\<close> it
  removes the feat-clause and the bracketed tag and lowercases the rest: the result is
  \<open>song\<close>.
\<close>

theorem normalize_string_idempotent:
  "normalize_string (normalize_string x) = normalize_string x
   \<and> normalize_string ''Song (feat. X) [Remix]'' = ''song''"
proof
  show "normalize_string (normalize_string x) = normalize_string x"
    by (rule normalize_string_normalized) (rule normalized_normalize_string)
  show "normalize_string ''Song (feat. X) [Remix]'' = ''song''"
    by code_simp
qed

section \<open>ResultCache and Resolver: what a call changes\<close>

lemma search_loop_Cons:
  "search_loop net k (q # qs) st =
     (case top_result (net (log st) q) of
        None \<Rightarrow> search_loop net k qs (st\<lparr>log := log st @ [q]\<rparr>)
      | Some m \<Rightarrow>
          (Some m, st\<lparr>log := log st @ [q],
                      cache := AList.update k (Some m) (cache st),
                      disk := Some (AList.update k (Some m) (cache st))\<rparr>))"
  by (simp add: top_result_def hits_def save_cache_def Let_def
           split: response.splits list.splits)

declare search_loop.simps(2) [simp del]

lemma search_loop_frame:
  "search_loop net k qs st = (r, st') \<Longrightarrow>
     (r = None \<longrightarrow> cache st' = cache st \<and> disk st' = disk st)
     \<and> (\<forall>m. r = Some m \<longrightarrow>
            cache st' = AList.update k (Some m) (cache st) \<and> disk st' = Some (cache st'))
     \<and> (\<exists>new. log st' = log st @ new \<and> length new \<le> length qs)"
proof (induction qs arbitrary: st)
  case Nil
  then show ?case by simp
next
  case (Cons q qs)
  show ?case
  proof (cases "top_result (net (log st) q)")
    case None
    with Cons.prems have "search_loop net k qs (st\<lparr>log := log st @ [q]\<rparr>) = (r, st')"
      by (simp add: search_loop_Cons)
    from Cons.IH [OF this] show ?thesis by auto
  next
    case (Some m)
    with Cons.prems show ?thesis
      by (auto simp: search_loop_Cons)
  qed
qed

lemma query_hit:
  "map_of (cache st) (base_key_of a t) = Some e \<Longrightarrow> query_spotify_api net a t st = (e, st)"
  by (simp add: query_spotify_api_def)

lemma query_miss:
  assumes "map_of (cache st) (base_key_of a t) = None"
      and "query_spotify_api net a t st = (r, st')"
  shows "cache st' = AList.update (base_key_of a t) r (cache st) \<and> disk st' = Some (cache st')
         \<and> (\<exists>new. log st' = log st @ new \<and> length new \<le> 3)"
proof -
  obtain r1 s1 where s: "search_loop net (base_key_of a t) (queries_of a t) st = (r1, s1)"
    by (cases "search_loop net (base_key_of a t) (queries_of a t) st")
  note f = search_loop_frame [OF s]
  have l: "length (queries_of a t) = 3" by (simp add: queries_of_def)
  show ?thesis
  proof (cases r1)
    case None
    with assms s have "r = None" and "st' = save_cache (s1\<lparr>cache := AList.update (base_key_of a t) None (cache s1)\<rparr>)"
      by (auto simp: query_spotify_api_def)
    with f None l show ?thesis by (auto simp: save_cache_def)
  next
    case (Some m)
    with assms s have "r = Some m" and "st' = s1"
      by (auto simp: query_spotify_api_def)
    with f Some l show ?thesis by auto
  qed
qed

lemma query_stores:
  assumes "query_spotify_api net a t st = (r, st')"
  shows "map_of (cache st') (base_key_of a t) = Some r"
    and "map_of (cache st) \<subseteq>\<^sub>m map_of (cache st')"
proof -
  show "map_of (cache st') (base_key_of a t) = Some r"
  proof (cases "map_of (cache st) (base_key_of a t)")
    case None
    from query_miss [OF None assms] show ?thesis by (simp add: update_conv')
  next
    case (Some e)
    with assms show ?thesis by (simp add: query_spotify_api_def)
  qed
  show "map_of (cache st) \<subseteq>\<^sub>m map_of (cache st')"
  proof (cases "map_of (cache st) (base_key_of a t)")
    case None
    from query_miss [OF None assms] None show ?thesis
      by (auto simp: update_conv' map_le_def dom_def)
  next
    case (Some e)
    with assms show ?thesis by (simp add: query_spotify_api_def)
  qed
qed


lemma map_le_lookup: "m \<subseteq>\<^sub>m m' \<Longrightarrow> m k = Some v \<Longrightarrow> m' k = Some v"
  by (metis domI map_le_def)

lemma alternates_loop_mono:
  "alternates_loop net alts st = (r, st') \<Longrightarrow> map_of (cache st) \<subseteq>\<^sub>m map_of (cache st')"
proof (induction alts arbitrary: st)
  case Nil
  then show ?case by simp
next
  case (Cons v alts)
  obtain a t where v: "v = (a, t)" by (cases v)
  show ?case
  proof (cases "strip t = []")
    case True
    with Cons v show ?thesis by simp
  next
    case False
    obtain r1 s1 where q: "query_spotify_api net (strip a) (strip t) st = (r1, s1)"
      by (cases "query_spotify_api net (strip a) (strip t) st")
    note m1 = query_stores(2) [OF q]
    show ?thesis
    proof (cases r1)
      case None
      with Cons.prems v False q have "alternates_loop net alts s1 = (r, st')" by simp
      from Cons.IH [OF this] m1 show ?thesis by (rule map_le_trans [rotated])
    next
      case (Some m)
      with Cons.prems v False q have "st' = s1" by simp
      with m1 show ?thesis by simp
    qed
  qed
qed

lemma alternates_loop_replay:
  "alternates_loop net alts st = (r, st') \<Longrightarrow> map_of (cache st') \<subseteq>\<^sub>m map_of (cache st2)
   \<Longrightarrow> alternates_loop net2 alts st2 = (r, st2)"
proof (induction alts arbitrary: st)
  case Nil
  then show ?case by simp
next
  case (Cons v alts)
  obtain a t where v: "v = (a, t)" by (cases v)
  show ?case
  proof (cases "strip t = []")
    case True
    with Cons v show ?thesis by simp
  next
    case False
    obtain r1 s1 where q: "query_spotify_api net (strip a) (strip t) st = (r1, s1)"
      by (cases "query_spotify_api net (strip a) (strip t) st")
    note k1 = query_stores(1) [OF q]
    show ?thesis
    proof (cases r1)
      case None
      with Cons.prems v False q have rest: "alternates_loop net alts s1 = (r, st')" by simp
      from alternates_loop_mono [OF rest] k1
      have "map_of (cache st') (base_key_of (strip a) (strip t)) = Some r1"
        by (rule map_le_lookup)
      with Cons.prems(2) have "map_of (cache st2) (base_key_of (strip a) (strip t)) = Some r1"
        by (rule map_le_lookup)
      then have "query_spotify_api net2 (strip a) (strip t) st2 = (None, st2)"
        using None by (simp add: query_hit)
      moreover have "alternates_loop net2 alts st2 = (r, st2)"
        using rest Cons.prems(2) by (rule Cons.IH)
      ultimately show ?thesis using v False by simp
    next
      case (Some m)
      with Cons.prems v False q have e: "st' = s1" "r = Some m" by simp_all
      from Cons.prems(2) k1 have "map_of (cache st2) (base_key_of (strip a) (strip t)) = Some r1"
        unfolding e by (rule map_le_lookup)
      then have "query_spotify_api net2 (strip a) (strip t) st2 = (Some m, st2)"
        using Some by (simp add: query_hit)
      with v False e show ?thesis by simp
    qed
  qed
qed

lemma query_synced:
  "query_spotify_api net a t st = (r, st') \<Longrightarrow> synced st \<Longrightarrow> synced st'"
proof (cases "map_of (cache st) (base_key_of a t)")
  case None
  assume "query_spotify_api net a t st = (r, st')"
  from query_miss [OF None this] show "synced st'" by (simp add: synced_def load_cache_def)
next
  case (Some e)
  assume "query_spotify_api net a t st = (r, st')" and "synced st"
  with Some show "synced st'" by (simp add: query_spotify_api_def)
qed

lemma alternates_loop_synced:
  "alternates_loop net alts st = (r, st') \<Longrightarrow> synced st \<Longrightarrow> synced st'"
proof (induction alts arbitrary: st)
  case Nil
  then show ?case by simp
next
  case (Cons v alts)
  obtain a t where v: "v = (a, t)" by (cases v)
  show ?case
  proof (cases "strip t = []")
    case True
    with Cons v show ?thesis by simp
  next
    case False
    obtain r1 s1 where q: "query_spotify_api net (strip a) (strip t) st = (r1, s1)"
      by (cases "query_spotify_api net (strip a) (strip t) st")
    from query_synced [OF q Cons.prems(2)] have s1: "synced s1" .
    show ?thesis
    proof (cases r1)
      case None
      with Cons.prems v False q have "alternates_loop net alts s1 = (r, st')" by simp
      from Cons.IH [OF this s1] show ?thesis .
    next
      case (Some m)
      with Cons.prems v False q s1 show ?thesis by simp
    qed
  qed
qed

section \<open>Blank tracks\<close>

lemma strip_Nil_iff: "strip s = [] \<longleftrightarrow> (\<forall>c \<in> set s. isspace c)"
proof
  assume "strip s = []"
  then have "dropWhile isspace (rev (dropWhile isspace s)) = []" by (simp add: strip_def)
  then have a: "\<forall>c \<in> set (dropWhile isspace s). isspace c"
    by (simp add: dropWhile_eq_Nil_conv)
  have "dropWhile isspace s = []"
  proof (rule ccontr)
    assume n: "dropWhile isspace s \<noteq> []"
    then have "\<not> isspace (hd (dropWhile isspace s))" by (rule hd_dropWhile)
    moreover from n have "hd (dropWhile isspace s) \<in> set (dropWhile isspace s)" by (rule hd_in_set)
    ultimately show False using a by blast
  qed
  then show "\<forall>c \<in> set s. isspace c" by (simp add: dropWhile_eq_Nil_conv)
next
  assume "\<forall>c \<in> set s. isspace c"
  then have e: "dropWhile isspace s = []" by (simp add: dropWhile_eq_Nil_conv)
  show "strip s = []" unfolding strip_def e by simp
qed

lemma isspace_not_special:
  "isspace c \<Longrightarrow> c \<noteq> CHR ''('' \<and> c \<noteq> CHR ''['' \<and> c \<noteq> CHR ''r''"
  unfolding isspace_def by auto

lemma replace_del_absent: "x \<notin> set s \<Longrightarrow> replace_del (x # p) s = s"
proof (induction s)
  case Nil
  then show ?case by simp
next
  case (Cons c cs)
  then have "strip_prefix (x # p) (c # cs) = None" by auto
  with Cons show ?case by simp
qed

lemma blank_variants:
  assumes "strip t = []"
  shows "re_sub_del match_paren_or_bracket t = t"
    and "replace_del ''remastered'' t = t"
proof -
  from assms have sp: "\<forall>c \<in> set t. isspace c" by (simp add: strip_Nil_iff)
  then have "CHR ''('' \<notin> set t" and "CHR ''['' \<notin> set t" and r: "CHR ''r'' \<notin> set t"
    using isspace_not_special by blast+
  then show "re_sub_del match_paren_or_bracket t = t"
    by (simp add: re_sub_del_paren_or_bracket_id)
  from r show "replace_del ''remastered'' t = t" by (rule replace_del_absent)
qed

lemma alternates_loop_all_blank:
  "\<forall>(a, t) \<in> set alts. strip t = [] \<Longrightarrow> alternates_loop net alts st = (None, st)"
  by (induction alts) auto

text \<open>
  Claim C5. When the normalized track is blank (empty once stripped), the track of every
  variant is blank: the resolve skips them all, sends nothing, leaves the cache as it was
  and returns \<open>None\<close>.
\<close>

theorem blank_track_skips_all_variants:
  assumes "strip track_norm = []"
  shows "(\<forall>(a, t) \<in> set (alternates artist_norm track_norm). strip t = [])
         \<and> try_alternate_queries net artist_norm track_norm st = (None, st)"
proof -
  from assms have b: "\<forall>(a, t) \<in> set (alternates artist_norm track_norm). strip t = []"
    by (simp add: alternates_def blank_variants strip_strip strip_Nil)
  then have "alternates_loop net (alternates artist_norm track_norm) st = (None, st)"
    by (rule alternates_loop_all_blank)
  with b show ?thesis by (simp add: try_alternate_queries_def)
qed

section \<open>Repeated variants\<close>

lemma alternates_loop_drop_blank:
  "strip t = [] \<Longrightarrow> alternates_loop net (xs @ (a, t) # ys) st = alternates_loop net (xs @ ys) st"
  by (induction xs arbitrary: st) (auto split: prod.splits option.splits)

lemma alternates_loop_drop_cached:
  "map_of (cache st) (base_key_of (strip a) (strip t)) = Some None
   \<Longrightarrow> alternates_loop net (xs @ (a, t) # ys) st = alternates_loop net (xs @ ys) st"
proof (induction xs arbitrary: st)
  case Nil
  then show ?case by (simp add: query_hit)
next
  case (Cons u xs)
  obtain b s where u: "u = (b, s)" by (cases u)
  show ?case
  proof (cases "strip s = []")
    case True
    with Cons u show ?thesis by simp
  next
    case False
    obtain r1 s1 where q: "query_spotify_api net (strip b) (strip s) st = (r1, s1)"
      by (cases "query_spotify_api net (strip b) (strip s) st")
    from query_stores(2) [OF q] Cons.prems
    have "map_of (cache s1) (base_key_of (strip a) (strip t)) = Some None"
      by (rule map_le_lookup)
    from Cons.IH [OF this] u False q show ?thesis
      by (simp split: option.splits)
  qed
qed

lemma alternates_loop_drop_repeat:
  "alternates_loop net ((a, t) # xs @ (a, t) # ys) st = alternates_loop net ((a, t) # xs @ ys) st"
proof (cases "strip t = []")
  case True
  then show ?thesis by (simp add: alternates_loop_drop_blank)
next
  case False
  obtain r1 s1 where q: "query_spotify_api net (strip a) (strip t) st = (r1, s1)"
    by (cases "query_spotify_api net (strip a) (strip t) st")
  show ?thesis
  proof (cases r1)
    case None
    with query_stores(1) [OF q]
    have "map_of (cache s1) (base_key_of (strip a) (strip t)) = Some None" by simp
    from alternates_loop_drop_cached [OF this] False q None show ?thesis by simp
  next
    case (Some m)
    with False q show ?thesis by simp
  qed
qed

text \<open>
  Claim C10. On a track that is an output of \<open>normalize_string\<close>, variant (d), the track
  with parenthetical and bracketed parts stripped, is the track itself: the fourth
  variant is the first one again. It is then answered from the cache entry the first
  variant left, so resolving with the fourth variant removed gives the same result and
  the same state.
\<close>

theorem variant_d_repeats_variant_a:
  "alternates artist_norm (normalize_string x) ! 3 = alternates artist_norm (normalize_string x) ! 0
   \<and> try_alternate_queries net artist_norm (normalize_string x) st =
       alternates_loop net
         (take 3 (alternates artist_norm (normalize_string x))
          @ drop 4 (alternates artist_norm (normalize_string x))) st"
proof -
  let ?t = "normalize_string x"
  have "normalized ?t" by (rule normalized_normalize_string)
  then have "CHR ''('' \<notin> set ?t" and "CHR ''['' \<notin> set ?t"
    using normalized_no_special by blast+
  then have d: "re_sub_del match_paren_or_bracket ?t = ?t"
    by (rule re_sub_del_paren_or_bracket_id)
  have a: "alternates artist_norm ?t =
             (artist_norm, ?t) # [([], ?t), (hd (split '' feat'' artist_norm), ?t)]
             @ (artist_norm, ?t) # [(artist_norm, strip (replace_del ''remastered'' ?t))]"
    by (simp add: alternates_def d)
  have "alternates_loop net (alternates artist_norm ?t) st =
          alternates_loop net
            ((artist_norm, ?t) # [([], ?t), (hd (split '' feat'' artist_norm), ?t)]
             @ [(artist_norm, strip (replace_del ''remastered'' ?t))]) st"
    unfolding a by (rule alternates_loop_drop_repeat)
  moreover have "take 3 (alternates artist_norm ?t) @ drop 4 (alternates artist_norm ?t) =
          (artist_norm, ?t) # [([], ?t), (hd (split '' feat'' artist_norm), ?t)]
             @ [(artist_norm, strip (replace_del ''remastered'' ?t))]"
    unfolding a by simp
  moreover have "alternates artist_norm ?t ! 3 = alternates artist_norm ?t ! 0"
    unfolding a by simp
  ultimately show ?thesis by (simp add: try_alternate_queries_def)
qed

theorem blank_track_witness:
  "strip (normalize_string ''?!'') = []
   \<and> try_alternate_queries stub_found (normalize_string ''Some Artist'')
        (normalize_string ''?!'') empty_state = (None, empty_state)"
proof -
  have h: "strip (normalize_string ''?!'') = []" by code_simp
  from blank_track_skips_all_variants [OF h] h show ?thesis by blast
qed

section \<open>Resolver: requests sent and entries written\<close>

lemma query_log:
  "query_spotify_api net a t st = (r, st') \<Longrightarrow> \<exists>new. log st' = log st @ new \<and> length new \<le> 3"
proof (cases "map_of (cache st) (base_key_of a t)")
  case None
  assume "query_spotify_api net a t st = (r, st')"
  from query_miss [OF None this] show ?thesis by blast
next
  case (Some e)
  assume "query_spotify_api net a t st = (r, st')"
  with Some show ?thesis by (simp add: query_spotify_api_def)
qed

lemma query_saved:
  "query_spotify_api net a t st = (r, st') \<Longrightarrow> st' = st \<or> disk st' = Some (cache st')"
proof (cases "map_of (cache st) (base_key_of a t)")
  case None
  assume "query_spotify_api net a t st = (r, st')"
  from query_miss [OF None this] show ?thesis by blast
next
  case (Some e)
  assume "query_spotify_api net a t st = (r, st')"
  with Some show ?thesis by (simp add: query_spotify_api_def)
qed

lemma alternates_loop_log:
  "alternates_loop net alts st = (r, st')
   \<Longrightarrow> \<exists>new. log st' = log st @ new \<and> length new \<le> 3 * length alts"
proof (induction alts arbitrary: st)
  case Nil
  then show ?case by simp
next
  case (Cons v alts)
  obtain a t where v: "v = (a, t)" by (cases v)
  show ?case
  proof (cases "strip t = []")
    case True
    with Cons.prems v have "alternates_loop net alts st = (r, st')" by simp
    from Cons.IH [OF this] show ?thesis by auto
  next
    case False
    obtain r1 s1 where q: "query_spotify_api net (strip a) (strip t) st = (r1, s1)"
      by (cases "query_spotify_api net (strip a) (strip t) st")
    from query_log [OF q] obtain n1 where n1: "log s1 = log st @ n1" "length n1 \<le> 3" by blast
    show ?thesis
    proof (cases r1)
      case None
      with Cons.prems v False q have "alternates_loop net alts s1 = (r, st')" by simp
      from Cons.IH [OF this] obtain n2 where "log st' = log s1 @ n2" "length n2 \<le> 3 * length alts"
        by blast
      with n1 have "log st' = log st @ (n1 @ n2)" "length (n1 @ n2) \<le> 3 * length (v # alts)"
        by simp_all
      then show ?thesis by blast
    next
      case (Some m)
      with Cons.prems v False q have "st' = s1" by simp
      with n1 show ?thesis by auto
    qed
  qed
qed

lemma alternates_loop_saved:
  "alternates_loop net alts st = (r, st') \<Longrightarrow> st' = st \<or> disk st' = Some (cache st')"
proof (induction alts arbitrary: st)
  case Nil
  then show ?case by simp
next
  case (Cons v alts)
  obtain a t where v: "v = (a, t)" by (cases v)
  show ?case
  proof (cases "strip t = []")
    case True
    with Cons v show ?thesis by simp
  next
    case False
    obtain r1 s1 where q: "query_spotify_api net (strip a) (strip t) st = (r1, s1)"
      by (cases "query_spotify_api net (strip a) (strip t) st")
    note s = query_saved [OF q]
    show ?thesis
    proof (cases r1)
      case None
      with Cons.prems v False q have "alternates_loop net alts s1 = (r, st')" by simp
      from Cons.IH [OF this] s show ?thesis by auto
    next
      case (Some m)
      with Cons.prems v False q have "st' = s1" by simp
      with s show ?thesis by simp
    qed
  qed
qed

lemma alternates_loop_Some_stored:
  "alternates_loop net alts st = (Some m, st')
   \<Longrightarrow> \<exists>(a, t) \<in> set alts. strip t \<noteq> []
         \<and> map_of (cache st') (base_key_of (strip a) (strip t)) = Some (Some m)"
proof (induction alts arbitrary: st)
  case Nil
  then show ?case by simp
next
  case (Cons v alts)
  obtain a t where v: "v = (a, t)" by (cases v)
  show ?case
  proof (cases "strip t = []")
    case True
    with Cons.prems v have "alternates_loop net alts st = (Some m, st')" by simp
    from Cons.IH [OF this] show ?thesis by auto
  next
    case False
    obtain r1 s1 where q: "query_spotify_api net (strip a) (strip t) st = (r1, s1)"
      by (cases "query_spotify_api net (strip a) (strip t) st")
    show ?thesis
    proof (cases r1)
      case None
      with Cons.prems v False q have "alternates_loop net alts s1 = (Some m, st')" by simp
      from Cons.IH [OF this] show ?thesis by auto
    next
      case (Some m')
      with Cons.prems v False q have "st' = s1" "m' = m" by simp_all
      with query_stores(1) [OF q] Some v False show ?thesis by auto
    qed
  qed
qed

lemma alternates_loop_None_first:
  assumes "alternates_loop net ((a, t) # rest) st = (None, st')" and "strip t \<noteq> []"
  shows "map_of (cache st') (base_key_of (strip a) (strip t)) = Some None"
proof -
  obtain r1 s1 where q: "query_spotify_api net (strip a) (strip t) st = (r1, s1)"
    by (cases "query_spotify_api net (strip a) (strip t) st")
  from assms q have r1: "r1 = None" and rest: "alternates_loop net rest s1 = (None, st')"
    by (auto split: option.splits)
  from query_stores(1) [OF q] r1
  have "map_of (cache s1) (base_key_of (strip a) (strip t)) = Some None" by simp
  with alternates_loop_mono [OF rest] show ?thesis by (rule map_le_lookup)
qed

section \<open>Resolver: the cache is kept per variant\<close>

lemma tried_set:
  "(x, y) \<in> set (tried a t) \<longleftrightarrow>
     (\<exists>(a', t') \<in> set (alternates a t). strip t' \<noteq> [] \<and> x = strip a' \<and> y = strip t')"
  by (auto simp: tried_def stripped_def alternates_def)

lemma resolve_all_mono: "map_of (cache st) \<subseteq>\<^sub>m map_of (cache (resolve_all net ps st))"
proof (induction ps arbitrary: st)
  case Nil
  then show ?case by simp
next
  case (Cons p ps)
  obtain a t where p: "p = (a, t)" by (cases p)
  obtain r s1 where q: "try_alternate_queries net a t st = (r, s1)"
    by (cases "try_alternate_queries net a t st")
  then have "map_of (cache st) \<subseteq>\<^sub>m map_of (cache s1)"
    unfolding try_alternate_queries_def by (rule alternates_loop_mono)
  moreover have "map_of (cache s1) \<subseteq>\<^sub>m map_of (cache (resolve_all net ps s1))" by (rule Cons.IH)
  ultimately show ?case using p q by (auto intro: map_le_trans)
qed

lemma resolve_all_synced: "synced st \<Longrightarrow> synced (resolve_all net ps st)"
proof (induction ps arbitrary: st)
  case Nil
  then show ?case by simp
next
  case (Cons p ps)
  obtain a t where p: "p = (a, t)" by (cases p)
  obtain r s1 where q: "try_alternate_queries net a t st = (r, s1)"
    by (cases "try_alternate_queries net a t st")
  then have "synced s1"
    unfolding try_alternate_queries_def using Cons.prems by (rule alternates_loop_synced)
  then have "synced (resolve_all net ps s1)" by (rule Cons.IH)
  with p q show ?case by simp
qed

lemma cache_next_run: "synced st \<Longrightarrow> cache (next_run st) = cache st"
  by (simp add: synced_def next_run_def)

text \<open>
  Claim C1, as the code has it. The cache is kept per variant: \<open>query_spotify_api\<close> reads
  and writes the entry under the key of the pair it is called with. For a track that is
  not blank: a match cached under the base key is returned at once, with nothing sent
  and nothing changed; a tombstone under the base key answers variant (a) only, and the
  resolve goes on with the other variants; a match the resolve returns is in the cache
  under the key of one of the variants tried, and the cache file holds the cache if
  anything changed; when the resolve returns \<open>None\<close>, the base key holds a tombstone.
\<close>

theorem resolve_caches_per_variant:
  assumes "strip track_norm \<noteq> []"
  shows "(map_of (cache st) (base_key_of (strip artist_norm) (strip track_norm)) = Some (Some m)
            \<longrightarrow> try_alternate_queries net artist_norm track_norm st = (Some m, st))
       \<and> (map_of (cache st) (base_key_of (strip artist_norm) (strip track_norm)) = Some None
            \<longrightarrow> try_alternate_queries net artist_norm track_norm st =
                alternates_loop net (tl (alternates artist_norm track_norm)) st)
       \<and> (\<forall>artist track r st'. query_spotify_api net artist track st = (r, st')
            \<longrightarrow> map_of (cache st') (base_key_of artist track) = Some r)
       \<and> (\<forall>st'. try_alternate_queries net artist_norm track_norm st = (Some m, st')
            \<longrightarrow> (\<exists>(a, t) \<in> set (tried artist_norm track_norm).
                   map_of (cache st') (base_key_of a t) = Some (Some m))
                \<and> (st' = st \<or> disk st' = Some (cache st')))
       \<and> (\<forall>st'. try_alternate_queries net artist_norm track_norm st = (None, st')
            \<longrightarrow> map_of (cache st') (base_key_of (strip artist_norm) (strip track_norm)) = Some None)"
proof -
  let ?base = "base_key_of (strip artist_norm) (strip track_norm)"
  have alts: "alternates artist_norm track_norm =
               (artist_norm, track_norm) # tl (alternates artist_norm track_norm)"
    by (simp add: alternates_def)
  have tq: "try_alternate_queries net artist_norm track_norm st =
               alternates_loop net ((artist_norm, track_norm) # tl (alternates artist_norm track_norm)) st"
    unfolding try_alternate_queries_def using alts by simp
  have 1: "map_of (cache st) ?base = Some (Some m)
             \<longrightarrow> try_alternate_queries net artist_norm track_norm st = (Some m, st)"
    unfolding tq using assms by (simp add: query_hit)
  have 2: "map_of (cache st) ?base = Some None
             \<longrightarrow> try_alternate_queries net artist_norm track_norm st =
                 alternates_loop net (tl (alternates artist_norm track_norm)) st"
    unfolding tq using assms by (simp add: query_hit)
  have 3: "\<forall>artist track r st'. query_spotify_api net artist track st = (r, st')
             \<longrightarrow> map_of (cache st') (base_key_of artist track) = Some r"
    using query_stores(1) by blast
  have 4: "\<forall>st'. try_alternate_queries net artist_norm track_norm st = (Some m, st')
            \<longrightarrow> (\<exists>(a, t) \<in> set (tried artist_norm track_norm).
                   map_of (cache st') (base_key_of a t) = Some (Some m))
                \<and> (st' = st \<or> disk st' = Some (cache st'))"
  proof (intro allI impI)
    fix st'
    assume "try_alternate_queries net artist_norm track_norm st = (Some m, st')"
    then have l: "alternates_loop net (alternates artist_norm track_norm) st = (Some m, st')"
      by (simp add: try_alternate_queries_def)
    from alternates_loop_Some_stored [OF l] obtain a t
      where "(a, t) \<in> set (alternates artist_norm track_norm)" "strip t \<noteq> []"
        "map_of (cache st') (base_key_of (strip a) (strip t)) = Some (Some m)"
      by blast
    then have "(strip a, strip t) \<in> set (tried artist_norm track_norm)"
      and "map_of (cache st') (base_key_of (strip a) (strip t)) = Some (Some m)"
      by (auto simp: tried_set)
    then have "\<exists>(a, t) \<in> set (tried artist_norm track_norm).
                   map_of (cache st') (base_key_of a t) = Some (Some m)"
      by blast
    with alternates_loop_saved [OF l]
    show "(\<exists>(a, t) \<in> set (tried artist_norm track_norm).
                   map_of (cache st') (base_key_of a t) = Some (Some m))
                \<and> (st' = st \<or> disk st' = Some (cache st'))"
      by blast
  qed
  have 5: "\<forall>st'. try_alternate_queries net artist_norm track_norm st = (None, st')
            \<longrightarrow> map_of (cache st') ?base = Some None"
    unfolding tq using alternates_loop_None_first assms by blast
  from 1 2 3 4 5 show ?thesis by blast
qed

theorem resolve_caches_per_variant_witness:
  "strip ''t'' \<noteq> []
   \<and> try_alternate_queries (stub_only ''t artist:'') ''a'' ''t'' empty_state =
       (Some found_match,
        \<lparr>cache = [(''a|t'', None), (''|t'', Some found_match)],
         disk = Some [(''a|t'', None), (''|t'', Some found_match)],
         log = [''t artist:a'', ''t a'', ''track:t'', ''t artist:'']\<rparr>)
   \<and> (\<exists>(a, t) \<in> set (tried ''a'' ''t'').
         map_of [(''a|t'', None), (''|t'', Some found_match)] (base_key_of a t)
           = Some (Some found_match))"
proof -
  have h: "strip ''t'' \<noteq> []" by code_simp
  have e: "try_alternate_queries (stub_only ''t artist:'') ''a'' ''t'' empty_state =
       (Some found_match,
        \<lparr>cache = [(''a|t'', None), (''|t'', Some found_match)],
         disk = Some [(''a|t'', None), (''|t'', Some found_match)],
         log = [''t artist:a'', ''t a'', ''track:t'', ''t artist:'']\<rparr>)"
    by code_simp
  from resolve_caches_per_variant [OF h, where artist_norm = "''a''" and st = empty_state
      and m = found_match and net = "stub_only ''t artist:''"] e
  have "\<exists>(a, t) \<in> set (tried ''a'' ''t'').
         map_of (cache \<lparr>cache = [(''a|t'', None), (''|t'', Some found_match)],
         disk = Some [(''a|t'', None), (''|t'', Some found_match)],
         log = [''t artist:a'', ''t a'', ''track:t'', ''t artist:'']\<rparr>) (base_key_of a t)
           = Some (Some found_match)"
    by blast
  with h e show ?thesis by simp
qed

theorem base_key_tombstone_counterexample:
  "map_of (cache tombstone_state) (base_key_of ''a'' ''t'') = Some None
   \<and> try_alternate_queries stub_found ''a'' ''t'' tombstone_state =
       (Some found_match,
        \<lparr>cache = [(''a|t'', None), (''|t'', Some found_match)],
         disk = Some [(''a|t'', None), (''|t'', Some found_match)],
         log = [''t artist:'']\<rparr>)"
  by code_simp

section \<open>Resolver: a second resolve is answered from the cache\<close>

text \<open>
  Claim C2, as the code has it. A key that has a cached value, positive or null, is
  never queried again: \<open>query_spotify_api\<close> returns the value and leaves the state as it
  is. The first resolve of a pair may send up to three requests for each of its five
  variants. Resolving the same pair again, later in the run after any other resolves,
  or in a later run that starts from the cache file, sends no request at all and gives
  the same answer, also when that answer is \<open>None\<close>.
\<close>

theorem second_resolve_from_cache:
  assumes "try_alternate_queries net artist_norm track_norm st = (r, st1)"
  shows "(\<exists>new. log st1 = log st @ new \<and> length new \<le> 15)
       \<and> try_alternate_queries net' artist_norm track_norm (resolve_all net' others st1) =
           (r, resolve_all net' others st1)
       \<and> (synced st \<longrightarrow>
            try_alternate_queries net' artist_norm track_norm
                (next_run (resolve_all net' others st1)) =
              (r, next_run (resolve_all net' others st1)))
       \<and> (\<forall>artist track entry.
            map_of (cache st) (base_key_of artist track) = Some entry
            \<longrightarrow> query_spotify_api net' artist track st = (entry, st))"
proof -
  let ?later = "resolve_all net' others st1"
  from assms have l: "alternates_loop net (alternates artist_norm track_norm) st = (r, st1)"
    by (simp add: try_alternate_queries_def)
  have "length (alternates artist_norm track_norm) = 5" by (simp add: alternates_def)
  with alternates_loop_log [OF l]
  have 1: "\<exists>new. log st1 = log st @ new \<and> length new \<le> 15" by simp
  have m: "map_of (cache st1) \<subseteq>\<^sub>m map_of (cache ?later)" by (rule resolve_all_mono)
  from l m have 2: "try_alternate_queries net' artist_norm track_norm ?later = (r, ?later)"
    unfolding try_alternate_queries_def by (rule alternates_loop_replay)
  have 3: "synced st \<longrightarrow>
            try_alternate_queries net' artist_norm track_norm (next_run ?later) =
              (r, next_run ?later)"
  proof
    assume "synced st"
    with l have "synced st1" by (rule alternates_loop_synced)
    then have "synced ?later" by (rule resolve_all_synced)
    then have "cache (next_run ?later) = cache ?later" by (rule cache_next_run)
    with m have "map_of (cache st1) \<subseteq>\<^sub>m map_of (cache (next_run ?later))" by simp
    with l show "try_alternate_queries net' artist_norm track_norm (next_run ?later) =
              (r, next_run ?later)"
      unfolding try_alternate_queries_def by (rule alternates_loop_replay)
  qed
  have 4: "\<forall>artist track entry.
            map_of (cache st) (base_key_of artist track) = Some entry
            \<longrightarrow> query_spotify_api net' artist track st = (entry, st)"
    by (simp add: query_hit)
  from 1 2 3 4 show ?thesis by blast
qed

theorem second_resolve_from_cache_witness:
  "try_alternate_queries stub_down ''a'' ''t'' empty_state =
     (None,
      \<lparr>cache = [(''a|t'', None), (''|t'', None)],
       disk = Some [(''a|t'', None), (''|t'', None)],
       log = [''t artist:a'', ''t a'', ''track:t'', ''t artist:'', ''t '', ''track:t'']\<rparr>)
   \<and> synced empty_state
   \<and> try_alternate_queries stub_found ''a'' ''t''
       (next_run
          \<lparr>cache = [(''a|t'', None), (''|t'', None)],
           disk = Some [(''a|t'', None), (''|t'', None)],
           log = [''t artist:a'', ''t a'', ''track:t'', ''t artist:'', ''t '', ''track:t'']\<rparr>) =
     (None,
      next_run
          \<lparr>cache = [(''a|t'', None), (''|t'', None)],
           disk = Some [(''a|t'', None), (''|t'', None)],
           log = [''t artist:a'', ''t a'', ''track:t'', ''t artist:'', ''t '', ''track:t'']\<rparr>)"
proof -
  have e: "try_alternate_queries stub_down ''a'' ''t'' empty_state =
     (None,
      \<lparr>cache = [(''a|t'', None), (''|t'', None)],
       disk = Some [(''a|t'', None), (''|t'', None)],
       log = [''t artist:a'', ''t a'', ''track:t'', ''t artist:'', ''t '', ''track:t'']\<rparr>)"
    by code_simp
  have s: "synced empty_state" by (simp add: synced_def empty_state_def load_cache_def)
  from second_resolve_from_cache [OF e, where net' = stub_found and others = "[]"] s e
  show ?thesis by simp
qed

theorem one_resolve_many_requests_counterexample:
  "log (snd (try_alternate_queries stub_down ''a'' ''t'' empty_state)) =
     [''t artist:a'', ''t a'', ''track:t'', ''t artist:'', ''t '', ''track:t'']
   \<and> \<not> length (log (snd (try_alternate_queries stub_down ''a'' ''t'' empty_state)))
         \<le> length (log empty_state) + 1"
  by code_simp

section \<open>Resolver: the order of the requests\<close>

lemma until_win_Cons_lose:
  "top_result (net old q) = None \<Longrightarrow>
   until_win net old (q # qs) =
     (q # fst (until_win net (old @ [q]) qs), snd (until_win net (old @ [q]) qs))"
  by (simp split: prod.splits)

lemma until_win_Cons_win:
  "top_result (net old q) = Some m \<Longrightarrow> until_win net old (q # qs) = ([q], Some m)"
  by simp

lemma until_win_lose: "snd (until_win net old qs) = None \<Longrightarrow> fst (until_win net old qs) = qs"
proof (induction qs arbitrary: old)
  case Nil
  show ?case by simp
next
  case (Cons q qs)
  show ?case
  proof (cases "top_result (net old q)")
    case None
    note e = until_win_Cons_lose [where net = net and old = old and q = q and qs = qs, OF None]
    from Cons.prems have "snd (until_win net (old @ [q]) qs) = None" unfolding e by simp
    then have "fst (until_win net (old @ [q]) qs) = qs" by (rule Cons.IH)
    then show ?thesis unfolding e by simp
  next
    case (Some m)
    from Cons.prems show ?thesis unfolding until_win_Cons_win [where net = net and old = old and q = q, OF Some] by simp
  qed
qed

lemma until_win_append_win:
  "snd (until_win net old xs) = Some m \<Longrightarrow> until_win net old (xs @ ys) = until_win net old xs"
proof (induction xs arbitrary: old)
  case Nil
  then show ?case by simp
next
  case (Cons q xs)
  show ?case
  proof (cases "top_result (net old q)")
    case None
    note e = until_win_Cons_lose [where net = net and old = old and q = q, OF None]
    from Cons.prems have "snd (until_win net (old @ [q]) xs) = Some m" unfolding e by simp
    then have "until_win net (old @ [q]) (xs @ ys) = until_win net (old @ [q]) xs"
      by (rule Cons.IH)
    then show ?thesis using e [of "xs @ ys"] e [of xs] by simp
  next
    case (Some m')
    show ?thesis
      using until_win_Cons_win [where net = net and old = old and q = q, OF Some, of "xs @ ys"]
        until_win_Cons_win [where net = net and old = old and q = q, OF Some, of xs]
      by simp
  qed
qed

lemma until_win_append_lose:
  "snd (until_win net old xs) = None \<Longrightarrow>
   until_win net old (xs @ ys) =
     (xs @ fst (until_win net (old @ xs) ys), snd (until_win net (old @ xs) ys))"
proof (induction xs arbitrary: old)
  case Nil
  then show ?case by simp
next
  case (Cons q xs)
  show ?case
  proof (cases "top_result (net old q)")
    case None
    note e = until_win_Cons_lose [where net = net and old = old and q = q, OF None]
    from Cons.prems have "snd (until_win net (old @ [q]) xs) = None" unfolding e by simp
    then have "until_win net (old @ [q]) (xs @ ys) =
        (xs @ fst (until_win net ((old @ [q]) @ xs) ys), snd (until_win net ((old @ [q]) @ xs) ys))"
      by (rule Cons.IH)
    then show ?thesis using e [of "xs @ ys"] by simp
  next
    case (Some m')
    from Cons.prems show ?thesis unfolding until_win_Cons_win [where net = net and old = old and q = q, OF Some] by simp
  qed
qed

lemma search_loop_until_win:
  "search_loop net k qs st = (r, st') \<Longrightarrow>
   log st' = log st @ fst (until_win net (log st) qs) \<and> r = snd (until_win net (log st) qs)"
proof (induction qs arbitrary: st)
  case Nil
  then show ?case by simp
next
  case (Cons q qs)
  show ?case
  proof (cases "top_result (net (log st) q)")
    case None
    with Cons.prems have "search_loop net k qs (st\<lparr>log := log st @ [q]\<rparr>) = (r, st')"
      by (simp add: search_loop_Cons)
    from Cons.IH [OF this] show ?thesis
      unfolding until_win_Cons_lose [where net = net and old = "log st" and q = q, OF None] by simp
  next
    case (Some m)
    with Cons.prems have "r = Some m" and "log st' = log st @ [q]"
      by (auto simp: search_loop_Cons)
    then show ?thesis unfolding until_win_Cons_win [where net = net and old = "log st" and q = q, OF Some] by simp
  qed
qed

lemma query_miss_until_win:
  assumes "map_of (cache st) (base_key_of a t) = None"
      and "query_spotify_api net a t st = (r, st')"
  shows "log st' = log st @ fst (until_win net (log st) (queries_of a t))
       \<and> r = snd (until_win net (log st) (queries_of a t))"
proof -
  obtain r1 s1 where s: "search_loop net (base_key_of a t) (queries_of a t) st = (r1, s1)"
    by (cases "search_loop net (base_key_of a t) (queries_of a t) st")
  from assms s have "r = r1 \<and> log st' = log s1"
    by (cases r1) (auto simp: query_spotify_api_def save_cache_def Let_def)
  with search_loop_until_win [OF s] show ?thesis by simp
qed

lemma cached_update_tombstone:
  "map_of c k = None \<Longrightarrow> cached (AList.update k None c) v = cached c v"
  by (simp add: cached_def update_conv')

lemma unseen_cong: "set ks = set ks' \<Longrightarrow> unseen ks vs = unseen ks' vs"
proof (induction vs arbitrary: ks ks')
  case Nil
  show ?case by simp
next
  case (Cons v vs)
  let ?k = "base_key_of (fst v) (snd v)"
  from Cons.prems have "set (?k # ks) = set (?k # ks')" by simp
  then have "unseen (?k # ks) vs = unseen (?k # ks') vs" by (rule Cons.IH)
  moreover have "unseen ks vs = unseen ks' vs" using Cons.prems by (rule Cons.IH)
  ultimately show ?case using Cons.prems by simp
qed

lemma keys_update: "set (map fst (AList.update k e c)) = insert k (set (map fst c))"
  using dom_update [of k e c] by auto

lemma key_absent: "map_of c k = None \<longleftrightarrow> k \<notin> set (map fst c)"
  by (simp add: map_of_eq_None_iff)

lemma asked_cached:
  "cached c v \<noteq> None \<Longrightarrow> asked c (v # vs) = []"
  "cached c v \<noteq> None \<Longrightarrow> fallback c (v # vs) = cached c v"
  by (simp_all add: asked_def fallback_def del: not_None_eq)

lemma asked_tombstone:
  "map_of c (base_key_of (fst v) (snd v)) = Some None \<Longrightarrow> asked c (v # vs) = asked c vs"
  "map_of c (base_key_of (fst v) (snd v)) = Some None \<Longrightarrow> fallback c (v # vs) = fallback c vs"
proof -
  assume a: "map_of c (base_key_of (fst v) (snd v)) = Some None"
  then have n: "cached c v = None" by (simp add: cached_def)
  from a have "base_key_of (fst v) (snd v) \<in> set (map fst c)"
    using key_absent [of c "base_key_of (fst v) (snd v)"] by simp
  with n show "asked c (v # vs) = asked c vs" by (simp add: asked_def)
  from n show "fallback c (v # vs) = fallback c vs" by (simp add: fallback_def)
qed

lemma asked_absent:
  assumes "map_of c (base_key_of (fst v) (snd v)) = None"
  shows "asked c (v # vs) = v # asked (AList.update (base_key_of (fst v) (snd v)) None c) vs"
    and "fallback c (v # vs) = fallback (AList.update (base_key_of (fst v) (snd v)) None c) vs"
proof -
  let ?k = "base_key_of (fst v) (snd v)"
  let ?c' = "AList.update ?k None c"
  from assms have n: "cached c v = None" by (simp add: cached_def)
  from assms have k: "?k \<notin> set (map fst c)" by (simp add: key_absent)
  have same: "cached ?c' = cached c"
    by (rule ext) (rule cached_update_tombstone [OF assms])
  have "set (?k # map fst c) = set (map fst ?c')" using keys_update [of ?k None c] by simp
  then have "unseen (?k # map fst c) (takeWhile (\<lambda>w. cached c w = None) vs) =
             unseen (map fst ?c') (takeWhile (\<lambda>w. cached c w = None) vs)"
    by (rule unseen_cong)
  with n k show "asked c (v # vs) = v # asked ?c' vs"
    unfolding asked_def same by simp
  from n show "fallback c (v # vs) = fallback ?c' vs"
    unfolding fallback_def same by simp
qed

lemma stripped_Cons:
  "strip t = [] \<Longrightarrow> stripped ((a, t) # alts) = stripped alts"
  "strip t \<noteq> [] \<Longrightarrow> stripped ((a, t) # alts) = (strip a, strip t) # stripped alts"
  by (simp_all add: stripped_def)

lemma formulations_Cons: "formulations ((a, t) # vs) = queries_of a t @ formulations vs"
  by (simp add: formulations_def queries_of_def)

lemma alternates_loop_exact:
  "alternates_loop net alts st = (r, st') \<Longrightarrow>
   log st' = log st @ fst (plan net st (stripped alts)) \<and> r = answer net st (stripped alts)"
proof (induction alts arbitrary: st)
  case Nil
  then show ?case
    by (simp add: plan_def answer_def asked_def fallback_def stripped_def formulations_def)
next
  case (Cons w alts)
  obtain a t where w: "w = (a, t)" by (cases w)
  show ?case
  proof (cases "strip t = []")
    case True
    with Cons.prems w have "alternates_loop net alts st = (r, st')" by simp
    from Cons.IH [OF this] show ?thesis
      unfolding w stripped_Cons(1) [OF True] .
  next
    case False
    let ?v = "(strip a, strip t)"
    let ?k = "base_key_of (strip a) (strip t)"
    let ?qs = "queries_of (strip a) (strip t)"
    note V = stripped_Cons(2) [OF False, of a alts]
    obtain r1 s1 where q: "query_spotify_api net (strip a) (strip t) st = (r1, s1)"
      by (cases "query_spotify_api net (strip a) (strip t) st")
    show ?thesis
    proof (cases "map_of (cache st) ?k")
      case (Some e)
      with q have hit: "r1 = e" "s1 = st" by (simp_all add: query_spotify_api_def)
      show ?thesis
      proof (cases e)
        case None
        with Some have ts: "map_of (cache st) (base_key_of (fst ?v) (snd ?v)) = Some None" by simp
        from Cons.prems w False q hit None have "alternates_loop net alts st = (r, st')" by simp
        from Cons.IH [OF this] show ?thesis
          unfolding w V plan_def answer_def asked_tombstone [OF ts] .
      next
        case (Some m)
        with \<open>map_of (cache st) ?k = Some e\<close> have c: "cached (cache st) ?v = Some m"
          by (simp add: cached_def)
        then have n: "cached (cache st) ?v \<noteq> None" by simp
        from Cons.prems w False q hit Some have "r = Some m" "st' = st" by simp_all
        then show ?thesis
          unfolding w V plan_def answer_def asked_cached [OF n] using c
          by (simp add: formulations_def)
      qed
    next
      case None
      then have ab: "map_of (cache st) (base_key_of (fst ?v) (snd ?v)) = None" by simp
      let ?c' = "AList.update ?k None (cache st)"
      have A: "asked (cache st) (?v # stripped alts) = ?v # asked ?c' (stripped alts)"
        and F: "fallback (cache st) (?v # stripped alts) = fallback ?c' (stripped alts)"
        using asked_absent [OF ab, of "stripped alts"] by simp_all
      from query_miss_until_win [OF None q]
      have l1: "log s1 = log st @ fst (until_win net (log st) ?qs)"
        and r1: "r1 = snd (until_win net (log st) ?qs)" by simp_all
      have P: "plan net st (?v # stripped alts) =
                 until_win net (log st) (?qs @ formulations (asked ?c' (stripped alts)))"
        by (simp add: plan_def A formulations_Cons)
      show ?thesis
      proof (cases r1)
        case (Some m)
        with Cons.prems w False q have e: "r = Some m" "st' = s1" by simp_all
        from Some r1 have s: "snd (until_win net (log st) ?qs) = Some m" by simp
        have "plan net st (?v # stripped alts) = until_win net (log st) ?qs"
          unfolding P using s by (rule until_win_append_win)
        with e l1 s show ?thesis
          unfolding w V answer_def by simp
      next
        case None2: None
        with Cons.prems w False q have rest: "alternates_loop net alts s1 = (r, st')" by simp
        from None2 r1 have s: "snd (until_win net (log st) ?qs) = None" by simp
        then have f: "fst (until_win net (log st) ?qs) = ?qs" by (rule until_win_lose)
        from query_miss [OF None q] None2 have c1: "cache s1 = ?c'" by simp
        from l1 f have l1': "log s1 = log st @ ?qs" by simp
        have "until_win net (log st) (?qs @ formulations (asked ?c' (stripped alts))) =
                (?qs @ fst (until_win net (log st @ ?qs) (formulations (asked ?c' (stripped alts)))),
                 snd (until_win net (log st @ ?qs) (formulations (asked ?c' (stripped alts)))))"
          using s by (rule until_win_append_lose)
        then have U: "plan net st (?v # stripped alts) =
                (?qs @ fst (plan net s1 (stripped alts)), snd (plan net s1 (stripped alts)))"
          unfolding P by (simp add: plan_def c1 l1')
        from Cons.IH [OF rest] show ?thesis
          unfolding w V answer_def U F c1 [symmetric] by (simp add: l1')
      qed
    qed
  qed
qed

lemma tried_alternates: "tried artist_norm track_norm = stripped (alternates artist_norm track_norm)"
  by (simp add: tried_def alternates_def)

text \<open>
  Claim C4. \<open>tried\<close> lists the variants in their priority order: (a) the key unchanged,
  (b) the artist cleared, (c) the artist cut at \<open>feat\<close>, (d) the track with parenthetical
  and bracketed parts stripped, (e) the track without \<open>remastered\<close>. The requests of a
  resolve are exactly these: for each variant in that order whose key the cache does not
  hold yet, the three formulations, track and \<open>artist:\<close>artist, then track and artist,
  then \<open>track:\<close>track, sent one after the other until the first that is answered with a
  result item; nothing is sent after it, and its top item gives the URI and the album of
  the result. When no request wins, every such variant has had its three formulations,
  and the result is the match the cache holds for a later variant, or \<open>None\<close>.
\<close>

theorem fallback_order:
  assumes "try_alternate_queries net artist_norm track_norm st = (r, st')"
  shows "log st' = log st @ fst (plan net st (tried artist_norm track_norm))
       \<and> r = answer net st (tried artist_norm track_norm)"
  using assms unfolding try_alternate_queries_def tried_alternates
  by (rule alternates_loop_exact)

theorem fallback_order_witness:
  "try_alternate_queries (stub_only ''t artist:'') ''a feat b'' ''t'' empty_state =
     (Some found_match,
      \<lparr>cache = [(''a feat b|t'', None), (''|t'', Some found_match)],
       disk = Some [(''a feat b|t'', None), (''|t'', Some found_match)],
       log = [''t artist:a feat b'', ''t a feat b'', ''track:t'', ''t artist:'']\<rparr>)
   \<and> tried ''a feat b'' ''t'' =
       [(''a feat b'', ''t''), ('''', ''t''), (''a'', ''t''), (''a feat b'', ''t''),
        (''a feat b'', ''t'')]
   \<and> fst (plan (stub_only ''t artist:'') empty_state (tried ''a feat b'' ''t'')) =
       [''t artist:a feat b'', ''t a feat b'', ''track:t'', ''t artist:'']
   \<and> answer (stub_only ''t artist:'') empty_state (tried ''a feat b'' ''t'') = Some found_match"
proof -
  have e: "try_alternate_queries (stub_only ''t artist:'') ''a feat b'' ''t'' empty_state =
     (Some found_match,
      \<lparr>cache = [(''a feat b|t'', None), (''|t'', Some found_match)],
       disk = Some [(''a feat b|t'', None), (''|t'', Some found_match)],
       log = [''t artist:a feat b'', ''t a feat b'', ''track:t'', ''t artist:'']\<rparr>)"
    by code_simp
  have t: "tried ''a feat b'' ''t'' =
       [(''a feat b'', ''t''), ('''', ''t''), (''a'', ''t''), (''a feat b'', ''t''),
        (''a feat b'', ''t'')]"
    by code_simp
  have l: "log empty_state = []" by (simp add: empty_state_def)
  from fallback_order [OF e] l
  have "fst (plan (stub_only ''t artist:'') empty_state (tried ''a feat b'' ''t'')) =
       [''t artist:a feat b'', ''t a feat b'', ''track:t'', ''t artist:'']"
    and "answer (stub_only ''t artist:'') empty_state (tried ''a feat b'' ''t'') = Some found_match"
    by simp_all
  with e t show ?thesis by (intro conjI)
qed

section \<open>Pipeline: Spotify events\<close>

text \<open>
  Claim C9. An event whose \<open>music_service\<close> is \<open>spotify.com\<close> is skipped: the body raises
  nothing, and the only change to the state of the run is the counter of skipped Spotify
  events, one higher. No record is added, the resolver's cache and request log stay as
  they are, nothing enters \<open>unknowns\<close>, and the count of converted events does not move.
\<close>

theorem spotify_events_are_skipped:
  assumes "track_metadata entry = Some meta"
      and "additional_info meta = Some info"
      and "music_service info = Some ''spotify.com''"
  shows "process_line printable net username' country_code (Json entry) p =
           (None, p\<lparr>skipped_spotify := skipped_spotify p + 1\<rparr>)
       \<and> step printable net username' country_code p (Json entry) =
           p\<lparr>skipped_spotify := skipped_spotify p + 1\<rparr>"
  using assms by (simp add: step_def process_line_def dict_get_def)

theorem spotify_events_are_skipped_witness:
  "track_metadata spotify_entry \<noteq> None
   \<and> music_service (the (additional_info (the (track_metadata spotify_entry)))) = Some ''spotify.com''
   \<and> step console_utf8 stub_found ''me'' ''XX'' (start None) (Json spotify_entry) =
       (start None)\<lparr>skipped_spotify := 1\<rparr>"
proof -
  have m: "track_metadata spotify_entry = Some
        \<lparr>artist_name = Some ''The Beatles'', track_name = Some ''Let It Be'',
         release_name = Some ''Let It Be'',
         additional_info = Some
           \<lparr>duration_ms = None, music_service = Some ''spotify.com'',
            spotify_id = Some ''https://open.spotify.com/track/7iN1s7xHE4ifF5povM6A48''\<rparr>\<rparr>"
    by (simp add: spotify_entry_def)
  have "skipped_spotify (start None) = 0" by (simp add: start_def)
  with spotify_events_are_skipped [OF m, where net = stub_found and username' = "''me''"
      and country_code = "''XX''" and p = "start None" and printable = console_utf8] m
  show ?thesis by simp
qed

section \<open>Pipeline: the direct identifier\<close>

lemma convert_lb_entry_ok:
  "track_metadata entry = Some meta \<Longrightarrow> listened_at entry = Some t
   \<Longrightarrow> utcfromtimestamp t = Some dt
   \<Longrightarrow> \<exists>rcd. convert_lb_entry_to_spotify_format entry u c = Inr rcd"
  by (simp add: convert_lb_entry_to_spotify_format_def Let_def)

lemma contains_nonempty: "contains (x # xs) s \<Longrightarrow> s \<noteq> []"
  by (cases s) auto

text \<open>
  Claim C6, as the code has it. The check for a Spotify event comes first, and an event
  from \<open>spotify.com\<close> is skipped even when it carries a track page. For an event that is
  not skipped, with a \<open>listened_at\<close> that \<open>utcfromtimestamp\<close> accepts, whose \<open>spotify_id\<close>
  contains \<open>open.spotify.com/track/\<close>: the record is the one
  \<open>convert_lb_entry_to_spotify_format\<close> builds from the event alone, the resolver is not
  called (its cache and its requests stay as they are, nothing enters \<open>unknowns\<close>), and
  the URI of the record is \<open>spotify:track:\<close> followed by the last segment of the
  identifier between slashes. The record is appended and counted whether or not the
  message that follows can be printed.
\<close>

theorem direct_identifier_fast_path:
  assumes "track_metadata entry = Some meta"
      and "additional_info meta = Some info"
      and "music_service info \<noteq> Some ''spotify.com''"
      and "listened_at entry = Some t"
      and "utcfromtimestamp t = Some dt"
      and "spotify_id info = Some sid"
      and "contains ''open.spotify.com/track/'' sid"
  shows "\<exists>rcd. convert_lb_entry_to_spotify_format entry username' country_code = Inr rcd
           \<and> process_line printable net username' country_code (Json entry) p =
               ((if printable [master_metadata_album_artist_name rcd,
                               master_metadata_track_name rcd]
                 then None else Some UnicodeEncodeError),
                p\<lparr>output_data := output_data p @ [rcd],
                  processed_count := processed_count p + 1\<rparr>)
           \<and> spotify_track_uri rcd = Some (''spotify:track:'' @ last (split ''/'' sid))"
proof -
  from assms(7) have "sid \<noteq> []" by (rule contains_nonempty)
  with assms(6,7) have h: "has_track_url (spotify_id info)" by (simp add: has_track_url_def)
  from convert_lb_entry_ok [OF assms(1,4,5)] obtain rcd
    where c: "convert_lb_entry_to_spotify_format entry username' country_code = Inr rcd"
    by blast
  from c assms h have "spotify_track_uri rcd = Some (''spotify:track:'' @ last (split ''/'' sid))"
    by (auto simp: convert_lb_entry_to_spotify_format_def Let_def dict_get_def)
  moreover from c assms h
  have "process_line printable net username' country_code (Json entry) p =
          ((if printable [master_metadata_album_artist_name rcd, master_metadata_track_name rcd]
            then None else Some UnicodeEncodeError),
           p\<lparr>output_data := output_data p @ [rcd],
             processed_count := processed_count p + 1\<rparr>)"
    by (simp add: process_line_def Let_def dict_get_def)
  ultimately show ?thesis using c by (intro exI [of _ rcd]) simp
qed

theorem spotify_event_with_track_page_counterexample:
  "music_service (the (additional_info (the (track_metadata spotify_entry)))) = Some ''spotify.com''
   \<and> has_track_url (spotify_id (the (additional_info (the (track_metadata spotify_entry)))))
   \<and> output_data (step console_utf8 stub_found ''me'' ''XX'' (start None) (Json spotify_entry)) = []
   \<and> processed_count (step console_utf8 stub_found ''me'' ''XX'' (start None) (Json spotify_entry)) = 0"
  by code_simp

lemma beatles_time:
  "utcfromtimestamp 1700000000 =
     Some \<lparr>year = 2023, month = 11, day = 14, hour = 22, minute = 13, second = 20\<rparr>"
  by (simp add: utcfromtimestamp_def ord2ymd_def Let_def DAYS_BEFORE_MONTH_def DAYS_IN_MONTH_def)

lemma beatles_ts:
  "isoformat \<lparr>year = 2023, month = 11, day = 14, hour = 22, minute = 13, second = 20\<rparr> =
     ''2023-11-14T22:13:20''"
  by (simp add: isoformat_def pad2_def pad4_def digit_def)

theorem direct_identifier_fast_path_witness:
  "music_service \<lparr>duration_ms = None, music_service = None,
       spotify_id = Some ''https://open.spotify.com/track/7iN1s7xHE4ifF5povM6A48''\<rparr>
     \<noteq> Some ''spotify.com''
   \<and> contains ''open.spotify.com/track/'' ''https://open.spotify.com/track/7iN1s7xHE4ifF5povM6A48''
   \<and> (\<exists>rcd. process_line console_utf8 stub_down ''me'' ''XX'' (Json direct_entry) (start None) =
               (None,
                (start None)\<lparr>output_data := output_data (start None) @ [rcd],
                      processed_count := processed_count (start None) + 1\<rparr>)
           \<and> spotify_track_uri rcd = Some ''spotify:track:7iN1s7xHE4ifF5povM6A48'')"
proof -
  let ?sid = "''https://open.spotify.com/track/7iN1s7xHE4ifF5povM6A48''"
  let ?info = "\<lparr>duration_ms = None, music_service = None, spotify_id = Some ?sid\<rparr>"
  let ?meta = "\<lparr>artist_name = Some ''The Beatles'', track_name = Some ''Let It Be'',
         release_name = Some ''Let It Be'', additional_info = Some ?info\<rparr>"
  have 1: "track_metadata direct_entry = Some ?meta" by (simp add: direct_entry_def)
  have 2: "additional_info ?meta = Some ?info" by simp
  have 3: "music_service ?info \<noteq> Some ''spotify.com''" by simp
  have 4: "listened_at direct_entry = Some 1700000000" by (simp add: direct_entry_def)
  note 5 = beatles_time
  have 6: "spotify_id ?info = Some ?sid" by simp
  have 7: "contains ''open.spotify.com/track/'' ?sid" by simp
  have 8: "last (split ''/'' ?sid) = ''7iN1s7xHE4ifF5povM6A48''" by simp
  have 9: "strip ''The Beatles'' = ''The Beatles''" "strip ''Let It Be'' = ''Let It Be''"
    by code_simp+
  from direct_identifier_fast_path [OF 1 2 3 4 5 6 7, where net = stub_down
      and username' = "''me''" and country_code = "''XX''" and p = "start None"
      and printable = console_utf8]
  obtain rcd where
    c: "convert_lb_entry_to_spotify_format direct_entry ''me'' ''XX'' = Inr rcd" and
    p: "process_line console_utf8 stub_down ''me'' ''XX'' (Json direct_entry) (start None) =
               ((if console_utf8 [master_metadata_album_artist_name rcd,
                                  master_metadata_track_name rcd]
                 then None else Some UnicodeEncodeError),
                (start None)\<lparr>output_data := output_data (start None) @ [rcd],
                      processed_count := processed_count (start None) + 1\<rparr>)" and
    u: "spotify_track_uri rcd = Some (''spotify:track:'' @ last (split ''/'' ?sid))"
    by blast
  from c have "master_metadata_album_artist_name rcd = ''The Beatles''"
      "master_metadata_track_name rcd = ''Let It Be''"
    by (auto simp: convert_lb_entry_to_spotify_format_def direct_entry_def Let_def 5 9
          dict_get_def)
  then have "console_utf8 [master_metadata_album_artist_name rcd, master_metadata_track_name rcd]"
    by (simp add: console_utf8_def lone_surrogate_def)
  with p u have "\<exists>rcd. process_line console_utf8 stub_down ''me'' ''XX'' (Json direct_entry)
                 (start None) =
               (None,
                (start None)\<lparr>output_data := output_data (start None) @ [rcd],
                      processed_count := processed_count (start None) + 1\<rparr>)
           \<and> spotify_track_uri rcd = Some ''spotify:track:7iN1s7xHE4ifF5povM6A48''"
    unfolding 8 by (intro exI [of _ rcd]) simp
  with 3 7 show ?thesis by (intro conjI)
qed

section \<open>Pipeline: what the handler contains\<close>

lemma raises_before_writing:
  assumes "line_error ln = Some e"
  shows "process_line printable net u c ln p = (Some e, p)"
  using assms
  by (auto simp: process_line_def line_error_def Let_def
           split: line.splits option.splits if_splits)

lemma step_line_error:
  "line_error ln = Some e \<Longrightarrow> step printable net u c p ln = p\<lparr>errors := errors p @ [e]\<rparr>"
  by (simp add: step_def raises_before_writing)

lemma run_lines_undecodable:
  "run_lines printable net u c (map Line lines @ Undecodable # rest) p = Inl UnicodeDecodeError"
  by (induction lines arbitrary: p) simp_all

text \<open>
  Claim C8, on the code. The handler of the loop contains what the body raises, but two
  failures get past it. In the fast path the record is appended and counted before the
  message is printed: for the event whose artist name the console cannot print, the
  handler records the \<open>UnicodeEncodeError\<close>, and the record of the failed event is in the
  output all the same, counted as converted. And the lines are read outside the \<open>try\<close>
  block: when a line cannot be decoded, the run ends with \<open>UnicodeDecodeError\<close>, the
  events after it are not processed, and no state is left to write to the output.
\<close>

theorem failed_event_leaves_record:
  "fst (process_line console_utf8 stub_down ''me'' ''XX'' (Json surrogate_entry) (start None)) =
     Some UnicodeEncodeError
   \<and> errors (step console_utf8 stub_down ''me'' ''XX'' (start None) (Json surrogate_entry)) =
       [UnicodeEncodeError]
   \<and> map master_metadata_album_artist_name
       (output_data (step console_utf8 stub_down ''me'' ''XX'' (start None) (Json surrogate_entry))) =
       [lone_surrogate]
   \<and> processed_count (step console_utf8 stub_down ''me'' ''XX'' (start None) (Json surrogate_entry)) = 1
   \<and> convert_with_spotify_api console_utf8 stub_found
         [Line (Json beatles_entry), Undecodable, Line (Json beatles_entry)] None ''me'' ''XX'' =
       Inl UnicodeDecodeError"
proof -
  have s: "strip lone_surrogate = lone_surrogate" "strip ''Let It Be'' = ''Let It Be''"
    by code_simp+
  have h: "has_track_url (Some ''https://open.spotify.com/track/7iN1s7xHE4ifF5povM6A48'')"
    by (simp add: has_track_url_def)
  have p: "process_line console_utf8 stub_down ''me'' ''XX'' (Json surrogate_entry) (start None) =
        (Some UnicodeEncodeError,
         (start None)\<lparr>output_data :=
            [\<lparr>ts = ''2023-11-14T22:13:20Z'', username = ''me'',
              platform = ''ListenBrainz Importer'', ms_played = 0,
              conn_country = ''XX'', ip_addr_decrypted = None,
              user_agent_decrypted = None,
              master_metadata_track_name = ''Let It Be'',
              master_metadata_album_artist_name = lone_surrogate,
              master_metadata_album_album_name = [],
              spotify_track_uri = Some ''spotify:track:7iN1s7xHE4ifF5povM6A48'',
              episode_name = None, episode_show_name = None,
              spotify_episode_uri = None, reason_start = ''trackdone'',
              reason_end = None, shuffle = False, skipped = False,
              offline = True, offline_timestamp = 1700000000000,
              incognito_mode = False\<rparr>],
           processed_count := 1\<rparr>)"
    unfolding process_line_def surrogate_entry_def
    by (simp add: Let_def dict_get_def h beatles_time beatles_ts s
          convert_lb_entry_to_spotify_format_def console_utf8_def start_def strip_Nil)
  have r: "convert_with_spotify_api console_utf8 stub_found
         [Line (Json beatles_entry), Undecodable, Line (Json beatles_entry)] None ''me'' ''XX'' =
       Inl UnicodeDecodeError"
    by (simp add: convert_with_spotify_api_def)
  from p r show ?thesis by (simp add: step_def start_def)
qed

section \<open>Pipeline: the derived fields of a record\<close>

lemma convert_lb_entry_fields:
  assumes "convert_lb_entry_to_spotify_format entry u c = Inr rcd"
      and "track_metadata entry = Some meta" and "listened_at entry = Some t"
      and "utcfromtimestamp t = Some dt"
  shows "ts rcd = isoformat dt @ ''Z''
       \<and> ms_played rcd = dict_get (duration_ms (dict_get (additional_info meta) no_info)) 0
       \<and> \<not> shuffle rcd \<and> \<not> skipped rcd \<and> \<not> incognito_mode rcd \<and> offline rcd
       \<and> offline_timestamp rcd = t * 1000"
  using assms by (auto simp: convert_lb_entry_to_spotify_format_def Let_def)

lemma process_line_record:
  assumes "process_line printable net u c (Json entry) p = (r, p')"
      and "processed_count p' \<noteq> processed_count p"
  shows "\<exists>meta t dt rcd.
           track_metadata entry = Some meta \<and> listened_at entry = Some t
         \<and> utcfromtimestamp t = Some dt
         \<and> output_data p' = output_data p @ [rcd]
         \<and> processed_count p' = processed_count p + 1
         \<and> ts rcd = isoformat dt @ ''Z''
         \<and> ms_played rcd = dict_get (duration_ms (dict_get (additional_info meta) no_info)) 0
         \<and> \<not> shuffle rcd \<and> \<not> skipped rcd \<and> \<not> incognito_mode rcd \<and> offline rcd
         \<and> offline_timestamp rcd = t * 1000
         \<and> (\<forall>m. \<not> has_track_url (spotify_id (dict_get (additional_info meta) no_info))
                \<and> fst (try_alternate_queries net
                     (normalize_string (strip (dict_get (artist_name meta) [])))
                     (normalize_string (strip (dict_get (track_name meta) [])))
                     (resolver p)) = Some m
              \<longrightarrow> spotify_track_uri rcd = Some (match_uri m)
                \<and> master_metadata_album_album_name rcd = match_album m)"
proof (cases "track_metadata entry")
  case None
  with assms show ?thesis by (auto simp: process_line_def)
next
  case (Some meta)
  note meta = Some
  let ?info = "dict_get (additional_info meta) no_info"
  show ?thesis
  proof (cases "music_service ?info = Some ''spotify.com''")
    case True
    with assms meta show ?thesis by (auto simp: process_line_def)
  next
    case False
    note service = False
    show ?thesis
    proof (cases "listened_at entry")
      case None
      with assms meta service show ?thesis by (auto simp: process_line_def)
    next
      case (Some t)
      note t = Some
      show ?thesis
      proof (cases "utcfromtimestamp t")
        case None
        with assms meta service t show ?thesis by (auto simp: process_line_def)
      next
        case (Some dt)
        note dt = Some
        show ?thesis
        proof (cases "has_track_url (spotify_id ?info)")
          case True
          from convert_lb_entry_ok [OF meta t dt] obtain rcd
            where c: "convert_lb_entry_to_spotify_format entry u c = Inr rcd" by blast
          with assms meta service t dt True
          have "output_data p' = output_data p @ [rcd]"
               "processed_count p' = processed_count p + 1"
            by (auto simp: process_line_def Let_def split: if_splits)
          with convert_lb_entry_fields [OF c meta t dt] meta t dt True show ?thesis by auto
        next
          case False
          obtain api_result st' where
            q: "try_alternate_queries net
                  (normalize_string (strip (dict_get (artist_name meta) [])))
                  (normalize_string (strip (dict_get (track_name meta) [])))
                  (resolver p) = (api_result, st')"
            by (cases "try_alternate_queries net
                  (normalize_string (strip (dict_get (artist_name meta) [])))
                  (normalize_string (strip (dict_get (track_name meta) [])))
                  (resolver p)")
          from assms(1) meta service t dt False q show ?thesis
            by (auto simp: process_line_def Let_def)
        qed
      qed
    qed
  qed
qed

text \<open>
  Claim C7. Every event that is converted adds one record whose derived fields are:
  \<open>ts\<close>, the time \<open>listened_at\<close> as \<open>utcfromtimestamp\<close> gives it, in the form
  \<open>YYYY-MM-DDTHH:MM:SS\<close> followed by \<open>Z\<close>; \<open>ms_played\<close>, the \<open>duration_ms\<close> of the event, or 0
  when it is absent; \<open>shuffle\<close>, \<open>skipped\<close> and \<open>incognito_mode\<close> false; \<open>offline\<close> true;
  \<open>offline_timestamp\<close>, \<open>listened_at\<close> times 1000. When the resolver is called and gives a
  match, the URI and the album of the record are those of the match. For an event heard
  at 1700000000, \<open>ts\<close> is \<open>2023-11-14T22:13:20Z\<close> and \<open>offline_timestamp\<close> is 1700000000000.
\<close>

theorem derived_fields:
  assumes "process_line printable net username' country_code (Json entry) p = (r, p')"
      and "processed_count p' \<noteq> processed_count p"
  shows "\<exists>meta t dt rcd.
           track_metadata entry = Some meta \<and> listened_at entry = Some t
         \<and> utcfromtimestamp t = Some dt
         \<and> output_data p' = output_data p @ [rcd]
         \<and> processed_count p' = processed_count p + 1
         \<and> ts rcd = isoformat dt @ ''Z''
         \<and> ms_played rcd = dict_get (duration_ms (dict_get (additional_info meta) no_info)) 0
         \<and> \<not> shuffle rcd \<and> \<not> skipped rcd \<and> \<not> incognito_mode rcd \<and> offline rcd
         \<and> offline_timestamp rcd = t * 1000
         \<and> (\<forall>m. \<not> has_track_url (spotify_id (dict_get (additional_info meta) no_info))
                \<and> fst (try_alternate_queries net
                     (normalize_string (strip (dict_get (artist_name meta) [])))
                     (normalize_string (strip (dict_get (track_name meta) [])))
                     (resolver p)) = Some m
              \<longrightarrow> spotify_track_uri rcd = Some (match_uri m)
                \<and> master_metadata_album_album_name rcd = match_album m)
         \<and> (t = 1700000000
              \<longrightarrow> ts rcd = ''2023-11-14T22:13:20Z'' \<and> offline_timestamp rcd = 1700000000000)"
proof -
  from process_line_record [OF assms] obtain meta t dt rcd where
    a: "track_metadata entry = Some meta" "listened_at entry = Some t"
       "utcfromtimestamp t = Some dt"
       "output_data p' = output_data p @ [rcd]"
       "processed_count p' = processed_count p + 1"
       "ts rcd = isoformat dt @ ''Z''"
       "ms_played rcd = dict_get (duration_ms (dict_get (additional_info meta) no_info)) 0"
       "\<not> shuffle rcd" "\<not> skipped rcd" "\<not> incognito_mode rcd" "offline rcd"
       "offline_timestamp rcd = t * 1000" and
    b: "\<forall>m. \<not> has_track_url (spotify_id (dict_get (additional_info meta) no_info))
                \<and> fst (try_alternate_queries net
                     (normalize_string (strip (dict_get (artist_name meta) [])))
                     (normalize_string (strip (dict_get (track_name meta) [])))
                     (resolver p)) = Some m
              \<longrightarrow> spotify_track_uri rcd = Some (match_uri m)
                \<and> master_metadata_album_album_name rcd = match_album m"
    by blast
  have "t = 1700000000
        \<longrightarrow> ts rcd = ''2023-11-14T22:13:20Z'' \<and> offline_timestamp rcd = 1700000000000"
  proof
    assume e: "t = 1700000000"
    with a(3) beatles_time
    have "dt = \<lparr>year = 2023, month = 11, day = 14, hour = 22, minute = 13, second = 20\<rparr>"
      by simp
    with a(6) beatles_ts have "ts rcd = ''2023-11-14T22:13:20Z''" by simp
    moreover from a(12) e have "offline_timestamp rcd = 1700000000000" by simp
    ultimately show "ts rcd = ''2023-11-14T22:13:20Z'' \<and> offline_timestamp rcd = 1700000000000"
      by simp
  qed
  with a b show ?thesis by blast
qed

lemma beatles_resolve:
  "try_alternate_queries stub_found (normalize_string (strip ''The Beatles''))
       (normalize_string (strip ''Let It Be'')) (resolver (start None)) =
     (Some found_match,
      \<lparr>cache = [(''the beatles|let it be'', Some found_match)],
       disk = Some [(''the beatles|let it be'', Some found_match)],
       log = [''let it be artist:the beatles'']\<rparr>)"
  by code_simp

lemma beatles_strip:
  "strip ''The Beatles'' = ''The Beatles''" "strip ''Let It Be'' = ''Let It Be''"
  by code_simp+

lemma beatles_line:
  "process_line console_utf8 stub_found ''me'' ''XX'' (Json beatles_entry) (start None) =
     (None,
      (start None)
          \<lparr>resolver := \<lparr>cache = [(''the beatles|let it be'', Some found_match)],
                        disk = Some [(''the beatles|let it be'', Some found_match)],
                        log = [''let it be artist:the beatles'']\<rparr>,
           unknowns := {},
           output_data := [beatles_record],
           processed_count := 1\<rparr>)"
proof -
  have u: "unknowns (start None) = {}" "output_data (start None) = []"
    "processed_count (start None) = 0"
    by (simp_all add: start_def)
  show ?thesis
    unfolding process_line_def beatles_entry_def
    by (simp add: Let_def dict_get_def has_track_url_def beatles_time beatles_ts
          beatles_resolve [unfolded beatles_strip] beatles_strip u beatles_record_def
          found_match_def strip_Nil)
qed

theorem derived_fields_witness:
  "fst (process_line console_utf8 stub_found ''me'' ''XX'' (Json beatles_entry) (start None)) = None
   \<and> output_data (snd (process_line console_utf8 stub_found ''me'' ''XX'' (Json beatles_entry)
        (start None))) = [beatles_record]
   \<and> processed_count (snd (process_line console_utf8 stub_found ''me'' ''XX''
        (Json beatles_entry) (start None))) = 1
   \<and> ts beatles_record = ''2023-11-14T22:13:20Z''
   \<and> ms_played beatles_record = 243000
   \<and> \<not> shuffle beatles_record \<and> \<not> skipped beatles_record
   \<and> \<not> incognito_mode beatles_record \<and> offline beatles_record
   \<and> spotify_track_uri beatles_record = Some ''spotify:track:abc123''
   \<and> master_metadata_album_album_name beatles_record = ''Let It Be''
   \<and> offline_timestamp beatles_record = 1700000000000"
proof -
  let ?p' = "(start None)
          \<lparr>resolver := \<lparr>cache = [(''the beatles|let it be'', Some found_match)],
                        disk = Some [(''the beatles|let it be'', Some found_match)],
                        log = [''let it be artist:the beatles'']\<rparr>,
           unknowns := {},
           output_data := [beatles_record],
           processed_count := 1\<rparr>"
  let ?meta = "\<lparr>artist_name = Some ''The Beatles'', track_name = Some ''Let It Be'',
         release_name = None,
         additional_info = Some
           \<lparr>duration_ms = Some 243000, music_service = None, spotify_id = None\<rparr>\<rparr>"
  have c: "processed_count ?p' \<noteq> processed_count (start None)" by (simp add: start_def)
  have o: "output_data ?p' = [beatles_record]" "output_data (start None) = []"
    by (simp_all add: start_def)
  have m: "track_metadata beatles_entry = Some ?meta" "listened_at beatles_entry = Some 1700000000"
    by (simp_all add: beatles_entry_def)
  from derived_fields [OF beatles_line c] obtain meta t dt rcd where
    a: "track_metadata beatles_entry = Some meta" "listened_at beatles_entry = Some t"
       "output_data ?p' = output_data (start None) @ [rcd]"
       "ms_played rcd = dict_get (duration_ms (dict_get (additional_info meta) no_info)) 0"
       "\<not> shuffle rcd" "\<not> skipped rcd" "\<not> incognito_mode rcd" "offline rcd" and
    b: "\<forall>m. \<not> has_track_url (spotify_id (dict_get (additional_info meta) no_info))
                \<and> fst (try_alternate_queries stub_found
                     (normalize_string (strip (dict_get (artist_name meta) [])))
                     (normalize_string (strip (dict_get (track_name meta) [])))
                     (resolver (start None))) = Some m
              \<longrightarrow> spotify_track_uri rcd = Some (match_uri m)
                \<and> master_metadata_album_album_name rcd = match_album m" and
    d: "t = 1700000000
        \<longrightarrow> ts rcd = ''2023-11-14T22:13:20Z'' \<and> offline_timestamp rcd = 1700000000000"
    by blast
  from a(3) o have r: "rcd = beatles_record" by simp
  from a(1,2) m have e: "meta = ?meta" "t = 1700000000" by simp_all
  from d e r have 1: "ts beatles_record = ''2023-11-14T22:13:20Z''"
      "offline_timestamp beatles_record = 1700000000000"
    by simp_all
  from a(4) e r have 2: "ms_played beatles_record = 243000" by (simp add: dict_get_def)
  have "\<not> has_track_url (spotify_id (dict_get (additional_info ?meta) no_info))"
    by (simp add: dict_get_def has_track_url_def)
  moreover have "fst (try_alternate_queries stub_found
                     (normalize_string (strip (dict_get (artist_name ?meta) [])))
                     (normalize_string (strip (dict_get (track_name ?meta) [])))
                     (resolver (start None))) = Some found_match"
    by (simp add: dict_get_def beatles_resolve)
  ultimately have "spotify_track_uri rcd = Some (match_uri found_match)
                \<and> master_metadata_album_album_name rcd = match_album found_match"
    using b unfolding e by blast
  with r have 3: "spotify_track_uri beatles_record = Some ''spotify:track:abc123''"
      "master_metadata_album_album_name beatles_record = ''Let It Be''"
    by (simp_all add: found_match_def)
  from a(5-8) r have 4: "\<not> shuffle beatles_record" "\<not> skipped beatles_record"
      "\<not> incognito_mode beatles_record" "offline beatles_record"
    by simp_all
  from 1 2 3 4 show ?thesis by (simp add: beatles_line)
qed

end
